theory Spec2Isabelle
  imports Complex_Main "HOL-Library.Monad_Syntax"
begin

section \<open>Regression gain functions of the decision tree\<close>

text \<open>
  The two fitness functions of \<^verbatim>\<open>methods/decision_tree_regression\<close>:
  \<^verbatim>\<open>MSEGain\<close> (mse_gain.hpp) and \<^verbatim>\<open>MADGain\<close> (mad_gain.hpp).

  Conventions of the embedding.
  \<^item> A \<^verbatim>\<open>double\<close> is read twice. In this section it is a \<^typ>\<open>real\<close>: arithmetic is exact,
    there is no rounding, no NaN and no infinity. This reading gives the values the code
    aims at, and it serves where rounding plays no part. The section on binary64
    arithmetic repeats both functions over rounded values, and every statement whose
    truth depends on rounding is made there.
  \<^item> An \<^verbatim>\<open>arma::rowvec\<close> is a \<^typ>\<open>real list\<close>. Armadillo's \<^verbatim>\<open>operator[]\<close> does not check
    its index; reading outside the vector is undefined behaviour, which the model shows as
    the result \<^term>\<open>None\<close>.
  \<^item> A \<^verbatim>\<open>size_t\<close> is a \<^typ>\<open>nat\<close> below \<open>2 ^ 64\<close>. The one place where the code can wrap,
    the element count \<^verbatim>\<open>end - start + 1\<close>, is written out modulo \<open>2 ^ 64\<close>. The loop counter
    cannot wrap before an access fails, as long as the vector has fewer than \<open>2 ^ 64\<close>
    elements.
  \<^item> The template parameter \<^verbatim>\<open>UseWeights\<close> is a \<^typ>\<open>bool\<close> argument.
\<close>

subsection \<open>Vector access and the counting loop\<close>

definition elem :: "real list \<Rightarrow> nat \<Rightarrow> real option" where
  "elem v i = (if i < length v then Some (v ! i) else None)"

text \<open>
  \<^verbatim>\<open>for (size_t i = start; i <= end; i++) body\<close>, the body updating an accumulator and
  failing when it reads outside a vector.
\<close>

function for_loop :: "nat \<Rightarrow> nat \<Rightarrow> (nat \<Rightarrow> 'a \<Rightarrow> 'a option) \<Rightarrow> 'a \<Rightarrow> 'a option" where
  "for_loop i endIdx body acc =
     (if i \<le> endIdx then
        (case body i acc of
           None \<Rightarrow> None
         | Some acc' \<Rightarrow> for_loop (Suc i) endIdx body acc')
      else Some acc)"
  by pat_completeness auto
termination
  by (relation "measure (\<lambda>(i, endIdx, body, acc). Suc endIdx - i)") auto

declare for_loop.simps [simp del]

text \<open>The \<^verbatim>\<open>size_t\<close> expression \<^verbatim>\<open>end - start + 1\<close>, for \<open>start\<close> and \<open>end\<close> below \<open>2 ^ 64\<close>.\<close>

definition range_count :: "nat \<Rightarrow> nat \<Rightarrow> nat" where
  "range_count start endIdx = (endIdx + 2 ^ 64 - start + 1) mod 2 ^ 64"

subsection \<open>MSEGain\<close>

text \<open>\<^verbatim>\<open>MSEGain::Evaluate(predictors, weights, start, end)\<close>, mse_gain.hpp lines 40 to 90.\<close>

definition MSEGain_Evaluate_range ::
  "bool \<Rightarrow> real list \<Rightarrow> real list \<Rightarrow> nat \<Rightarrow> nat \<Rightarrow> real option" where
  "MSEGain_Evaluate_range UseWeights predictors weights start endIdx =
     (if UseWeights then
        do {
          (accWeights, weightedMean) \<leftarrow>
            for_loop start endIdx
              (\<lambda>i (accWeights, weightedMean). do {
                 w \<leftarrow> elem weights i;
                 p \<leftarrow> elem predictors i;
                 Some (accWeights + w, weightedMean + p * w) })
              (0, 0);
          if accWeights = 0 then Some 0
          else do {
            let weightedMean = weightedMean / accWeights;
            mse \<leftarrow>
              for_loop start endIdx
                (\<lambda>i mse. do {
                   w \<leftarrow> elem weights i;
                   p \<leftarrow> elem predictors i;
                   let f = w * (p - weightedMean) ^ 2;
                   Some (mse + f / accWeights) })
                0;
            Some (- mse) }
        }
      else
        do {
          mean \<leftarrow>
            for_loop start endIdx
              (\<lambda>i mean. do { p \<leftarrow> elem predictors i; Some (mean + p) })
              0;
          let mean = mean / real (range_count start endIdx);
          mse \<leftarrow>
            for_loop start endIdx
              (\<lambda>i mse. do {
                 p \<leftarrow> elem predictors i;
                 let f = 1 * (p - mean) ^ 2;
                 Some (mse + f / real (range_count start endIdx)) })
              0;
          Some (- mse)
        })"

text \<open>\<^verbatim>\<open>MSEGain::Evaluate(predictors, weights)\<close>, mse_gain.hpp lines 94 to 102.\<close>

definition MSEGain_Evaluate :: "bool \<Rightarrow> real list \<Rightarrow> real list \<Rightarrow> real option" where
  "MSEGain_Evaluate UseWeights predictors weights =
     (if length predictors = 0 then Some 0
      else MSEGain_Evaluate_range UseWeights predictors weights 0 (length predictors - 1))"

subsection \<open>MADGain\<close>

text \<open>\<^verbatim>\<open>MADGain::Evaluate(predictors, weights, start, end)\<close>, mad_gain.hpp lines 42 to 96.\<close>

definition MADGain_Evaluate_range ::
  "bool \<Rightarrow> real list \<Rightarrow> real list \<Rightarrow> nat \<Rightarrow> nat \<Rightarrow> real option" where
  "MADGain_Evaluate_range UseWeights predictors weights start endIdx =
     (if UseWeights then
        do {
          (accWeights, weightedMean) \<leftarrow>
            for_loop start endIdx
              (\<lambda>i (accWeights, weightedMean). do {
                 w \<leftarrow> elem weights i;
                 p \<leftarrow> elem predictors i;
                 Some (accWeights + w, weightedMean + p * w) })
              (0, 0);
          if accWeights = 0 then Some 0
          else do {
            let weightedMean = weightedMean / accWeights;
            mad \<leftarrow>
              for_loop start endIdx
                (\<lambda>i mad. do {
                   w \<leftarrow> elem weights i;
                   p \<leftarrow> elem predictors i;
                   let f = w * \<bar>p - weightedMean\<bar>;
                   Some (mad + f / accWeights) })
                0;
            Some (- mad) }
        }
      else
        do {
          mean \<leftarrow>
            for_loop start endIdx
              (\<lambda>i mean. do { p \<leftarrow> elem predictors i; Some (mean + p) })
              0;
          let mean = mean / real (range_count start endIdx);
          mad \<leftarrow>
            for_loop start endIdx
              (\<lambda>i mad. do {
                 p \<leftarrow> elem predictors i;
                 let f = \<bar>p - mean\<bar>;
                 Some (mad + f / real (range_count start endIdx)) })
              0;
          Some (- mad)
        })"

text \<open>\<^verbatim>\<open>MADGain::Evaluate(predictors, weights)\<close>, mad_gain.hpp lines 100 to 109.\<close>

definition MADGain_Evaluate :: "bool \<Rightarrow> real list \<Rightarrow> real list \<Rightarrow> real option" where
  "MADGain_Evaluate UseWeights predictors weights =
     (if length predictors = 0 then Some 0
      else MADGain_Evaluate_range UseWeights predictors weights 0 (length predictors - 1))"

section \<open>The gain functions in binary64 arithmetic\<close>

text \<open>
  The definitions above read every \<^verbatim>\<open>double\<close> operation as the exact operation on reals.
  That reading fixes the values the code aims at; it cannot say what the code returns
  where rounding matters. This section gives the second reading: the same two functions
  over IEEE 754 binary64 values.

  Conventions of this reading.
  \<^item> A \<^verbatim>\<open>double\<close> is a finite value, an infinity or NaN. The two zeros are one value: the
    code never divides a nonzero number by zero and never looks at the sign of a zero.
  \<^item> Every operation (\<^verbatim>\<open>+\<close>, \<^verbatim>\<open>-\<close>, \<^verbatim>\<open>*\<close>, \<^verbatim>\<open>/\<close>, the conversion of a \<^verbatim>\<open>size_t\<close>) computes
    the exact result and rounds it once, to the nearest binary64 value, ties to the even
    mantissa, with gradual underflow and overflow to infinity. Products are not fused
    with the additions that follow them, and no intermediate is kept in a wider format.
  \<^item> \<^verbatim>\<open>std::pow(x, 2)\<close> is a library call; it is taken to be the correctly rounded
    square \<open>x * x\<close>, which is also what compilers replace the call by. The statements
    below use it only at arguments whose square is exact, or depend on its sign alone.
  \<^item> \<^verbatim>\<open>std::abs\<close> and the unary minus are exact.
\<close>

subsection \<open>Rounding to binary64\<close>

datatype double = Fin real | PInf | NInf | NaN

text \<open>Rounding a real to the nearest integer, a tie going to the even one.\<close>

definition round_even :: "real \<Rightarrow> int" where
  "round_even y =
     (let f = \<lfloor>y\<rfloor>; d = y - of_int f in
        if d < 1 / 2 then f
        else if 1 / 2 < d then f + 1
        else if even f then f else f + 1)"

text \<open>
  The exponent of the binade of \<open>x\<close>: the largest \<open>e\<close> in \<open>emin..emax\<close> with
  \<open>2 ^ e \<le> x\<close>, and \<open>emin\<close> for the subnormal numbers. The search goes up from \<open>emin\<close>, at
  most \<open>emax - emin\<close> steps.
\<close>

definition emin :: int where
  "emin = - 1022"

definition emax :: int where
  "emax = 1023"

fun expo_search :: "nat \<Rightarrow> int \<Rightarrow> real \<Rightarrow> int" where
  "expo_search 0 e x = e"
| "expo_search (Suc n) e x = (if 2 powi (e + 1) \<le> x then expo_search n (e + 1) x else e)"

definition expo :: "real \<Rightarrow> int" where
  "expo x = expo_search 2045 emin \<bar>x\<bar>"

text \<open>The distance between neighbouring binary64 values around \<open>x\<close>: 53 bits of mantissa.\<close>

definition ulp :: "real \<Rightarrow> real" where
  "ulp x = 2 powi (expo x - 52)"

definition rnd :: "real \<Rightarrow> real" where
  "rnd x = of_int (round_even (x / ulp x)) * ulp x"

text \<open>The rounded result of an operation: an infinity once it reaches \<open>2 ^ 1024\<close>.\<close>

definition round64 :: "real \<Rightarrow> double" where
  "round64 x =
     (let y = rnd x in
        if 2 powi (emax + 1) \<le> y then PInf
        else if y \<le> - (2 powi (emax + 1)) then NInf
        else Fin y)"

text \<open>A value of the model is a \<^verbatim>\<open>double\<close> when rounding leaves it as it is.\<close>

definition is_double :: "double \<Rightarrow> bool" where
  "is_double d = (case d of Fin x \<Rightarrow> round64 x = Fin x | _ \<Rightarrow> True)"


subsection \<open>The operations\<close>

fun dneg :: "double \<Rightarrow> double" where
  "dneg (Fin x) = Fin (- x)"
| "dneg PInf = NInf"
| "dneg NInf = PInf"
| "dneg NaN = NaN"

fun dabs :: "double \<Rightarrow> double" where
  "dabs (Fin x) = Fin \<bar>x\<bar>"
| "dabs PInf = PInf"
| "dabs NInf = PInf"
| "dabs NaN = NaN"

fun dadd :: "double \<Rightarrow> double \<Rightarrow> double" where
  "dadd (Fin x) (Fin y) = round64 (x + y)"
| "dadd NaN b = NaN"
| "dadd a NaN = NaN"
| "dadd PInf NInf = NaN"
| "dadd NInf PInf = NaN"
| "dadd PInf b = PInf"
| "dadd a PInf = PInf"
| "dadd NInf b = NInf"
| "dadd a NInf = NInf"

definition dsub :: "double \<Rightarrow> double \<Rightarrow> double" where
  "dsub a b = dadd a (dneg b)"

fun dmul :: "double \<Rightarrow> double \<Rightarrow> double" where
  "dmul (Fin x) (Fin y) = round64 (x * y)"
| "dmul NaN b = NaN"
| "dmul a NaN = NaN"
| "dmul (Fin x) PInf = (if x = 0 then NaN else if 0 < x then PInf else NInf)"
| "dmul (Fin x) NInf = (if x = 0 then NaN else if 0 < x then NInf else PInf)"
| "dmul PInf (Fin y) = (if y = 0 then NaN else if 0 < y then PInf else NInf)"
| "dmul NInf (Fin y) = (if y = 0 then NaN else if 0 < y then NInf else PInf)"
| "dmul PInf PInf = PInf"
| "dmul PInf NInf = NInf"
| "dmul NInf PInf = NInf"
| "dmul NInf NInf = PInf"

fun ddiv :: "double \<Rightarrow> double \<Rightarrow> double" where
  "ddiv (Fin x) (Fin y) =
     (if y = 0 then (if x = 0 then NaN else if 0 < x then PInf else NInf)
      else round64 (x / y))"
| "ddiv NaN b = NaN"
| "ddiv a NaN = NaN"
| "ddiv (Fin x) PInf = Fin 0"
| "ddiv (Fin x) NInf = Fin 0"
| "ddiv PInf (Fin y) = (if 0 \<le> y then PInf else NInf)"
| "ddiv NInf (Fin y) = (if 0 \<le> y then NInf else PInf)"
| "ddiv PInf PInf = NaN"
| "ddiv PInf NInf = NaN"
| "ddiv NInf PInf = NaN"
| "ddiv NInf NInf = NaN"

text \<open>\<^verbatim>\<open>std::pow(x, 2)\<close>, as the correctly rounded square.\<close>

definition dpow2 :: "double \<Rightarrow> double" where
  "dpow2 x = dmul x x"

text \<open>The conversion of a \<^verbatim>\<open>size_t\<close> to \<^verbatim>\<open>double\<close>.\<close>

definition double_of_size :: "nat \<Rightarrow> double" where
  "double_of_size n = round64 (real n)"

definition elem64 :: "double list \<Rightarrow> nat \<Rightarrow> double option" where
  "elem64 v i = (if i < length v then Some (v ! i) else None)"


subsection \<open>MSEGain and MADGain over binary64\<close>

text \<open>\<^verbatim>\<open>MSEGain::Evaluate(predictors, weights, start, end)\<close>, mse_gain.hpp lines 40 to 90.\<close>

definition MSEGain_Evaluate_range64 ::
  "bool \<Rightarrow> double list \<Rightarrow> double list \<Rightarrow> nat \<Rightarrow> nat \<Rightarrow> double option" where
  "MSEGain_Evaluate_range64 UseWeights predictors weights start endIdx =
     (if UseWeights then
        do {
          (accWeights, weightedMean) \<leftarrow>
            for_loop start endIdx
              (\<lambda>i (accWeights, weightedMean). do {
                 w \<leftarrow> elem64 weights i;
                 p \<leftarrow> elem64 predictors i;
                 Some (dadd accWeights w, dadd weightedMean (dmul p w)) })
              (Fin 0, Fin 0);
          if accWeights = Fin 0 then Some (Fin 0)
          else do {
            let weightedMean = ddiv weightedMean accWeights;
            mse \<leftarrow>
              for_loop start endIdx
                (\<lambda>i mse. do {
                   w \<leftarrow> elem64 weights i;
                   p \<leftarrow> elem64 predictors i;
                   let f = dmul w (dpow2 (dsub p weightedMean));
                   Some (dadd mse (ddiv f accWeights)) })
                (Fin 0);
            Some (dneg mse) }
        }
      else
        do {
          mean \<leftarrow>
            for_loop start endIdx
              (\<lambda>i mean. do { p \<leftarrow> elem64 predictors i; Some (dadd mean p) })
              (Fin 0);
          let mean = ddiv mean (double_of_size (range_count start endIdx));
          mse \<leftarrow>
            for_loop start endIdx
              (\<lambda>i mse. do {
                 p \<leftarrow> elem64 predictors i;
                 let f = dmul (Fin 1) (dpow2 (dsub p mean));
                 Some (dadd mse (ddiv f (double_of_size (range_count start endIdx)))) })
              (Fin 0);
          Some (dneg mse)
        })"

text \<open>\<^verbatim>\<open>MSEGain::Evaluate(predictors, weights)\<close>, mse_gain.hpp lines 94 to 102.\<close>

definition MSEGain_Evaluate64 :: "bool \<Rightarrow> double list \<Rightarrow> double list \<Rightarrow> double option" where
  "MSEGain_Evaluate64 UseWeights predictors weights =
     (if length predictors = 0 then Some (Fin 0)
      else MSEGain_Evaluate_range64 UseWeights predictors weights 0 (length predictors - 1))"

text \<open>\<^verbatim>\<open>MADGain::Evaluate(predictors, weights, start, end)\<close>, mad_gain.hpp lines 42 to 96.\<close>

definition MADGain_Evaluate_range64 ::
  "bool \<Rightarrow> double list \<Rightarrow> double list \<Rightarrow> nat \<Rightarrow> nat \<Rightarrow> double option" where
  "MADGain_Evaluate_range64 UseWeights predictors weights start endIdx =
     (if UseWeights then
        do {
          (accWeights, weightedMean) \<leftarrow>
            for_loop start endIdx
              (\<lambda>i (accWeights, weightedMean). do {
                 w \<leftarrow> elem64 weights i;
                 p \<leftarrow> elem64 predictors i;
                 Some (dadd accWeights w, dadd weightedMean (dmul p w)) })
              (Fin 0, Fin 0);
          if accWeights = Fin 0 then Some (Fin 0)
          else do {
            let weightedMean = ddiv weightedMean accWeights;
            mad \<leftarrow>
              for_loop start endIdx
                (\<lambda>i mad. do {
                   w \<leftarrow> elem64 weights i;
                   p \<leftarrow> elem64 predictors i;
                   let f = dmul w (dabs (dsub p weightedMean));
                   Some (dadd mad (ddiv f accWeights)) })
                (Fin 0);
            Some (dneg mad) }
        }
      else
        do {
          mean \<leftarrow>
            for_loop start endIdx
              (\<lambda>i mean. do { p \<leftarrow> elem64 predictors i; Some (dadd mean p) })
              (Fin 0);
          let mean = ddiv mean (double_of_size (range_count start endIdx));
          mad \<leftarrow>
            for_loop start endIdx
              (\<lambda>i mad. do {
                 p \<leftarrow> elem64 predictors i;
                 let f = dabs (dsub p mean);
                 Some (dadd mad (ddiv f (double_of_size (range_count start endIdx)))) })
              (Fin 0);
          Some (dneg mad)
        })"

text \<open>\<^verbatim>\<open>MADGain::Evaluate(predictors, weights)\<close>, mad_gain.hpp lines 100 to 109.\<close>

definition MADGain_Evaluate64 :: "bool \<Rightarrow> double list \<Rightarrow> double list \<Rightarrow> double option" where
  "MADGain_Evaluate64 UseWeights predictors weights =
     (if length predictors = 0 then Some (Fin 0)
      else MADGain_Evaluate_range64 UseWeights predictors weights 0 (length predictors - 1))"

subsection \<open>The loops as folds\<close>

text \<open>Names for the index list of a range and for the bodies of the loops.\<close>

definition indices :: "nat \<Rightarrow> nat \<Rightarrow> nat list" where
  "indices start endIdx = [start..<Suc endIdx]"

definition sum_step :: "double list \<Rightarrow> nat \<Rightarrow> double \<Rightarrow> double" where
  "sum_step v i acc = dadd acc (v ! i)"

definition wsum_step ::
  "double list \<Rightarrow> double list \<Rightarrow> nat \<Rightarrow> double \<times> double \<Rightarrow> double \<times> double" where
  "wsum_step p w i acc = (dadd (fst acc) (w ! i), dadd (snd acc) (dmul (p ! i) (w ! i)))"

definition acc_step :: "(nat \<Rightarrow> double) \<Rightarrow> double \<Rightarrow> nat \<Rightarrow> double \<Rightarrow> double" where
  "acc_step term cnt i acc = dadd acc (ddiv (term i) cnt)"

section \<open>Split finders\<close>

text \<open>
  The tests call \<^verbatim>\<open>BestBinaryNumericSplit<Fitness>::SplitIfBetter<UseWeights>\<close> and
  \<^verbatim>\<open>AllCategoricalSplit<Fitness>::SplitIfBetter<UseWeights>\<close>; their headers
  (best_binary_numeric_split.hpp and all_categorical_split.hpp of
  \<^verbatim>\<open>methods/decision_tree\<close>) are not among the sources. Both are modelled from
  sections 4.2 and 4.3 of the specification, over the same exact arithmetic. The fitness
  function is a parameter: the full-range \<^verbatim>\<open>Evaluate\<close> of \<^verbatim>\<open>MSEGain\<close> or of
  \<^verbatim>\<open>MADGain\<close>. The output parameter \<^verbatim>\<open>outSplitInfo\<close> is passed in and returned;
  \<^verbatim>\<open>outAux\<close> is opaque, never read or written, and left out. A precondition violation
  (vectors of different lengths, a category outside \<open>0..numCategories - 1\<close>) is the result
  \<^term>\<open>None\<close>.
\<close>

type_synonym fitness = "bool \<Rightarrow> real list \<Rightarrow> real list \<Rightarrow> real option"

text \<open>
  Modelled from the spec: the sentinel "no split was made", "the maximum representable
  real". The tests compare with \<^verbatim>\<open>DBL_MAX\<close>, a constant of the C library that no source
  file defines; it is given its IEEE 754 binary64 value.
\<close>

definition DBL_MAX :: real where
  "DBL_MAX = (2 ^ 53 - 1) * 2 ^ 971"

text \<open>
  Modelled from the spec: the weight of one child in the combined gain of a split, whose
  code is in the missing headers of the split finders. A part is the responses and the
  weights of one child. "Weighted by partition size or partition weight sum, consistent
  with the ImpurityMetric's own weighting convention": the size of the part, or its weight
  sum when \<^verbatim>\<open>UseWeights\<close> holds.
\<close>

definition part_share :: "bool \<Rightarrow> real list \<times> real list \<Rightarrow> real" where
  "part_share UseWeights part =
     (if UseWeights then sum_list (snd part) else real (length (fst part)))"

text \<open>
  Modelled from the spec: the contribution of one child to the combined gain (missing
  with the headers of the split finders): the gain of the child, from the fitness
  function, times its share of the whole. The specification does not say what a split
  of zero total weight is worth; the model gives such a child the contribution 0.
\<close>

definition part_gain :: "fitness \<Rightarrow> bool \<Rightarrow> real \<Rightarrow> real list \<times> real list \<Rightarrow> real option" where
  "part_gain fit UseWeights whole part =
     do {
       g \<leftarrow> fit UseWeights (fst part) (snd part);
       Some (if whole = 0 then 0 else part_share UseWeights part / whole * g)
     }"

text \<open>
  Modelled from the spec: the combined gain of a split (missing with the headers of the
  split finders), "combine the partition gains into a single weighted gain": the sum of
  the contributions of the children.
\<close>

definition combined_gain :: "fitness \<Rightarrow> bool \<Rightarrow> (real list \<times> real list) list \<Rightarrow> real option" where
  "combined_gain fit UseWeights parts =
     map_option sum_list
       (those (map (part_gain fit UseWeights (sum_list (map (part_share UseWeights) parts))) parts))"

text \<open>
  Modelled from the spec: the precondition of both finders (missing with their headers),
  "mismatched lengths between responses, weights and features are caller bugs". The weights
  count only when \<^verbatim>\<open>UseWeights\<close> holds: a test passes an empty weight vector to the
  unweighted finder.
\<close>

definition same_lengths :: "bool \<Rightarrow> real list \<Rightarrow> real list \<Rightarrow> real list \<Rightarrow> bool" where
  "same_lengths UseWeights featureValues responses weights =
     (length responses = length featureValues \<and>
      (UseWeights \<longrightarrow> length weights = length featureValues))"

subsection \<open>NumericSplitFinder\<close>

text \<open>
  Modelled from the spec: the candidate split points of the sorted feature values
  (section 4.2, step 3; best_binary_numeric_split.hpp is missing). Candidate \<open>i\<close> puts the first \<open>i\<close> samples to the left and the others to the
  right; it lies between two distinct feature values, and both sides hold at least
  \<open>minLeafSize\<close> samples (and at least one).
\<close>

definition split_candidates :: "real list \<Rightarrow> nat \<Rightarrow> nat list" where
  "split_candidates sortedValues minLeafSize =
     filter
       (\<lambda>i. 0 < i \<and> minLeafSize \<le> i \<and> minLeafSize \<le> length sortedValues - i \<and>
            sortedValues ! (i - 1) \<noteq> sortedValues ! i)
       [0..<length sortedValues]"

text \<open>
  Modelled from the spec: the choice among the candidates (section 4.2, step 4;
  best_binary_numeric_split.hpp is missing), "keep the maximum"; among equal gains the
  first in the sweep.
\<close>

fun best_candidate :: "(real \<times> nat) list \<Rightarrow> (real \<times> nat) option" where
  "best_candidate [] = None"
| "best_candidate (c # cs) =
     (case best_candidate cs of
        None \<Rightarrow> Some c
      | Some b \<Rightarrow> if fst c < fst b then Some b else Some c)"

text \<open>
  Modelled from the spec: \<^verbatim>\<open>BestBinaryNumericSplit::SplitIfBetter\<close>, the numeric finder of
  section 4.2 (best_binary_numeric_split.hpp is missing). Fewer than
  \<open>2 * minLeafSize\<close> samples return the sentinel immediately. The samples are sorted by
  feature value; the incremental prefix and suffix statistics of step 2 are a matter of
  cost only and give the gain of each side, which the model takes from the fitness
  function on each side. The best candidate is accepted when its gain exceeds
  \<open>currentBestGain + minGainSplit\<close>; the threshold written is the midpoint of the two
  feature values at the split. Otherwise the sentinel is returned and \<^verbatim>\<open>outSplitInfo\<close>
  is untouched.
\<close>

definition BestBinaryNumericSplit_SplitIfBetter ::
  "fitness \<Rightarrow> bool \<Rightarrow> real \<Rightarrow> real list \<Rightarrow> real list \<Rightarrow> real list \<Rightarrow> nat \<Rightarrow> real \<Rightarrow>
   real list \<Rightarrow> (real \<times> real list) option" where
  "BestBinaryNumericSplit_SplitIfBetter fit UseWeights currentBestGain featureValues responses
     weights minLeafSize minGainSplit outSplitInfo =
     (if length featureValues < 2 * minLeafSize then Some (DBL_MAX, outSplitInfo)
      else if \<not> same_lengths UseWeights featureValues responses weights then None
      else
        let order = sort_key (\<lambda>i. featureValues ! i) [0..<length featureValues];
            vs = map (\<lambda>i. featureValues ! i) order;
            rs = map (\<lambda>i. responses ! i) order;
            ws = (if UseWeights then map (\<lambda>i. weights ! i) order else [])
        in
          do {
            gains \<leftarrow>
              those (map
                (\<lambda>i. map_option (\<lambda>g. (g, i))
                   (combined_gain fit UseWeights
                      [(take i rs, take i ws), (drop i rs, drop i ws)]))
                (split_candidates vs minLeafSize));
            (case best_candidate gains of
               None \<Rightarrow> Some (DBL_MAX, outSplitInfo)
             | Some (g, i) \<Rightarrow>
                 if currentBestGain + minGainSplit < g
                 then Some (g, [(vs ! (i - 1) + vs ! i) / 2])
                 else Some (DBL_MAX, outSplitInfo))
          })"

subsection \<open>CategoricalSplitFinder\<close>

text \<open>
  Modelled from the spec: the bucket of category \<open>c\<close> (section 4.3;
  all_categorical_split.hpp is missing), "partition samples into buckets by exact feature
  value": the entries of \<open>xs\<close> at the samples whose feature value is exactly \<open>c\<close>.
\<close>

definition bucket :: "real list \<Rightarrow> real list \<Rightarrow> nat \<Rightarrow> real list" where
  "bucket featureValues xs c =
     map snd (filter (\<lambda>vx. fst vx = real c) (zip featureValues xs))"

text \<open>
  Modelled from the spec: the children of the categorical split (section 4.3;
  all_categorical_split.hpp is missing), one for each category \<open>0..numCategories - 1\<close>,
  with the responses and the weights of its samples.
\<close>

definition category_parts ::
  "real list \<Rightarrow> nat \<Rightarrow> real list \<Rightarrow> real list \<Rightarrow> (real list \<times> real list) list" where
  "category_parts featureValues numCategories responses weights =
     map (\<lambda>c. (bucket featureValues responses c, bucket featureValues weights c))
       [0..<numCategories]"

text \<open>
  Modelled from the spec: \<^verbatim>\<open>AllCategoricalSplit::SplitIfBetter\<close>, the categorical finder of
  section 4.3 (all_categorical_split.hpp is missing). The one
  candidate split has a child for each category. It is rejected, with the sentinel and
  \<^verbatim>\<open>outSplitInfo\<close> untouched, when there are fewer than \<open>minLeafSize * numCategories\<close>
  samples, when a bucket has fewer than \<open>minLeafSize\<close> samples, or when the combined gain
  does not exceed \<open>currentBestGain + minGainSplit\<close>. On acceptance \<open>numCategories\<close> is
  written into \<^verbatim>\<open>outSplitInfo\<close> and the combined gain is returned.
\<close>

definition AllCategoricalSplit_SplitIfBetter ::
  "fitness \<Rightarrow> bool \<Rightarrow> real \<Rightarrow> real list \<Rightarrow> nat \<Rightarrow> real list \<Rightarrow> real list \<Rightarrow> nat \<Rightarrow> real \<Rightarrow>
   real list \<Rightarrow> (real \<times> real list) option" where
  "AllCategoricalSplit_SplitIfBetter fit UseWeights currentBestGain featureValues numCategories
     responses weights minLeafSize minGainSplit outSplitInfo =
     (if length featureValues < minLeafSize * numCategories then Some (DBL_MAX, outSplitInfo)
      else if \<not> same_lengths UseWeights featureValues responses weights \<or>
              (\<exists>v \<in> set featureValues. v \<notin> real ` {0..<numCategories}) then None
      else if \<exists>c \<in> {0..<numCategories}. length (bucket featureValues responses c) < minLeafSize
        then Some (DBL_MAX, outSplitInfo)
      else
        do {
          g \<leftarrow> combined_gain fit UseWeights
                 (category_parts featureValues numCategories responses weights);
          if currentBestGain + minGainSplit < g
          then Some (g, [real numCategories])
          else Some (DBL_MAX, outSplitInfo)
        })"

section \<open>The loops as sums\<close>

text \<open>
  A loop that adds \<open>f i\<close> to its accumulator at every index of the range, and whose reads
  are all inside the vectors, returns the sum of \<open>f\<close> over the range.
\<close>

lemma for_loop_add:
  fixes f :: "nat \<Rightarrow> real"
  assumes "\<And>k acc. start \<le> k \<Longrightarrow> k \<le> endIdx \<Longrightarrow> body k acc = Some (acc + f k)"
  shows "for_loop start endIdx body acc = Some (acc + (\<Sum>k = start..endIdx. f k))"
  using assms
proof (induction start endIdx body acc rule: for_loop.induct)
  case (1 i endIdx body acc)
  show ?case
  proof (cases "i \<le> endIdx")
    case True
    have step: "body i acc = Some (acc + f i)" using 1(2) True by simp
    have "for_loop (Suc i) endIdx body (acc + f i)
            = Some (acc + f i + (\<Sum>k = Suc i..endIdx. f k))"
      using 1(1)[OF True step] 1(2) by simp
    moreover have "(\<Sum>k = i..endIdx. f k) = f i + (\<Sum>k = Suc i..endIdx. f k)"
      using True by (simp add: sum.atLeast_Suc_atMost)
    ultimately show ?thesis
      using True step by (subst for_loop.simps) (simp add: add.assoc)
  next
    case False
    then show ?thesis by (subst for_loop.simps) simp
  qed
qed

lemma for_loop_add2:
  fixes f g :: "nat \<Rightarrow> real"
  assumes "\<And>k a b. start \<le> k \<Longrightarrow> k \<le> endIdx \<Longrightarrow> body k (a, b) = Some (a + f k, b + g k)"
  shows "for_loop start endIdx body (a, b) =
           Some (a + (\<Sum>k = start..endIdx. f k), b + (\<Sum>k = start..endIdx. g k))"
  using assms
proof (induction start endIdx body "(a, b)" arbitrary: a b rule: for_loop.induct)
  case (1 i endIdx body)
  show ?case
  proof (cases "i \<le> endIdx")
    case True
    have step: "body i (a, b) = Some (a + f i, b + g i)" using 1(2) True by simp
    have "for_loop (Suc i) endIdx body (a + f i, b + g i)
            = Some (a + f i + (\<Sum>k = Suc i..endIdx. f k), b + g i + (\<Sum>k = Suc i..endIdx. g k))"
      using 1(1)[OF True step] 1(2) by simp
    moreover have "(\<Sum>k = i..endIdx. f k) = f i + (\<Sum>k = Suc i..endIdx. f k)"
      "(\<Sum>k = i..endIdx. g k) = g i + (\<Sum>k = Suc i..endIdx. g k)"
      using True by (simp_all add: sum.atLeast_Suc_atMost)
    ultimately show ?thesis
      using True step by (subst for_loop.simps) (simp add: add.assoc)
  next
    case False
    then show ?thesis by (subst for_loop.simps) simp
  qed
qed

lemma for_loop_sum:
  fixes f :: "nat \<Rightarrow> real"
  assumes "\<And>k acc. start \<le> k \<Longrightarrow> k \<le> endIdx \<Longrightarrow> body k acc = Some (acc + f k)"
  shows "for_loop start endIdx body 0 = Some (\<Sum>k = start..endIdx. f k)"
  using for_loop_add[of start endIdx body f 0] assms by simp

lemma for_loop_sum2:
  fixes f g :: "nat \<Rightarrow> real"
  assumes "\<And>k a b. start \<le> k \<Longrightarrow> k \<le> endIdx \<Longrightarrow> body k (a, b) = Some (a + f k, b + g k)"
  shows "for_loop start endIdx body (0, 0) =
           Some (\<Sum>k = start..endIdx. f k, \<Sum>k = start..endIdx. g k)"
  using for_loop_add2[of start endIdx body f g 0 0] assms by simp

lemma elem_in: "i < length v \<Longrightarrow> elem v i = Some (v ! i)"
  by (simp add: elem_def)

lemma MSE_unweighted_sum:
  assumes "start \<le> endIdx \<longrightarrow> endIdx < length predictors"
  shows "MSEGain_Evaluate_range False predictors weights start endIdx =
    Some (- (\<Sum>k = start..endIdx.
        (predictors ! k - (\<Sum>j = start..endIdx. predictors ! j) / real (range_count start endIdx))\<^sup>2
          / real (range_count start endIdx)))"
proof -
  have a: "for_loop start endIdx (\<lambda>i mean. elem predictors i \<bind> (\<lambda>p. Some (mean + p))) 0
         = Some (\<Sum>j = start..endIdx. predictors ! j)"
    by (rule for_loop_sum) (use assms in \<open>simp add: elem_in\<close>)
  have b: "for_loop start endIdx (\<lambda>i mse. elem predictors i \<bind> (\<lambda>p. Some (mse + (p - m)\<^sup>2 / c))) 0
         = Some (\<Sum>k = start..endIdx. (predictors ! k - m)\<^sup>2 / c)" for m c
    by (rule for_loop_sum) (use assms in \<open>simp add: elem_in\<close>)
  show ?thesis
    unfolding MSEGain_Evaluate_range_def by (simp add: a b Let_def)
qed

lemma MAD_unweighted_sum:
  assumes "start \<le> endIdx \<longrightarrow> endIdx < length predictors"
  shows "MADGain_Evaluate_range False predictors weights start endIdx =
    Some (- (\<Sum>k = start..endIdx.
        \<bar>predictors ! k - (\<Sum>j = start..endIdx. predictors ! j) / real (range_count start endIdx)\<bar>
          / real (range_count start endIdx)))"
proof -
  have a: "for_loop start endIdx (\<lambda>i mean. elem predictors i \<bind> (\<lambda>p. Some (mean + p))) 0
         = Some (\<Sum>j = start..endIdx. predictors ! j)"
    by (rule for_loop_sum) (use assms in \<open>simp add: elem_in\<close>)
  have b: "for_loop start endIdx (\<lambda>i mad. elem predictors i \<bind> (\<lambda>p. Some (mad + \<bar>p - m\<bar> / c))) 0
         = Some (\<Sum>k = start..endIdx. \<bar>predictors ! k - m\<bar> / c)" for m c
    by (rule for_loop_sum) (use assms in \<open>simp add: elem_in\<close>)
  show ?thesis
    unfolding MADGain_Evaluate_range_def by (simp add: a b Let_def)
qed

lemma weights_loop:
  assumes "start \<le> endIdx \<longrightarrow> endIdx < length predictors \<and> endIdx < length weights"
  shows "for_loop start endIdx
           (\<lambda>i (accWeights, weightedMean).
              elem weights i \<bind> (\<lambda>w. elem predictors i \<bind>
                (\<lambda>p. Some (accWeights + w, weightedMean + p * w)))) (0, 0)
         = Some (\<Sum>k = start..endIdx. weights ! k,
                 \<Sum>k = start..endIdx. predictors ! k * weights ! k)"
  by (rule for_loop_sum2) (use assms in \<open>simp add: elem_in\<close>)

lemma MSE_weighted_sum:
  assumes "start \<le> endIdx \<longrightarrow> endIdx < length predictors \<and> endIdx < length weights"
  shows "MSEGain_Evaluate_range True predictors weights start endIdx =
    (if (\<Sum>k = start..endIdx. weights ! k) = 0 then Some 0
     else Some (- (\<Sum>k = start..endIdx.
        weights ! k * (predictors ! k -
           (\<Sum>j = start..endIdx. predictors ! j * weights ! j) / (\<Sum>j = start..endIdx. weights ! j))\<^sup>2
          / (\<Sum>j = start..endIdx. weights ! j))))"
proof -
  have b: "for_loop start endIdx (\<lambda>i mse. elem weights i \<bind> (\<lambda>w. elem predictors i \<bind>
              (\<lambda>p. Some (mse + w * (p - m)\<^sup>2 / c)))) 0
         = Some (\<Sum>k = start..endIdx. weights ! k * (predictors ! k - m)\<^sup>2 / c)" for m c
    by (rule for_loop_sum) (use assms in \<open>simp add: elem_in\<close>)
  show ?thesis
    unfolding MSEGain_Evaluate_range_def by (simp add: weights_loop[OF assms] b Let_def)
qed

lemma MAD_weighted_sum:
  assumes "start \<le> endIdx \<longrightarrow> endIdx < length predictors \<and> endIdx < length weights"
  shows "MADGain_Evaluate_range True predictors weights start endIdx =
    (if (\<Sum>k = start..endIdx. weights ! k) = 0 then Some 0
     else Some (- (\<Sum>k = start..endIdx.
        weights ! k * \<bar>predictors ! k -
           (\<Sum>j = start..endIdx. predictors ! j * weights ! j) / (\<Sum>j = start..endIdx. weights ! j)\<bar>
          / (\<Sum>j = start..endIdx. weights ! j))))"
proof -
  have b: "for_loop start endIdx (\<lambda>i mad. elem weights i \<bind> (\<lambda>w. elem predictors i \<bind>
              (\<lambda>p. Some (mad + w * \<bar>p - m\<bar> / c)))) 0
         = Some (\<Sum>k = start..endIdx. weights ! k * \<bar>predictors ! k - m\<bar> / c)" for m c
    by (rule for_loop_sum) (use assms in \<open>simp add: elem_in\<close>)
  show ?thesis
    unfolding MADGain_Evaluate_range_def by (simp add: weights_loop[OF assms] b Let_def)
qed

lemma wrap_count:
  fixes M :: nat
  assumes "start \<le> endIdx" "endIdx < n" "n < M"
  shows "(endIdx + M - start + 1) mod M = endIdx - start + 1"
proof -
  have eq: "endIdx + M - start + 1 = (endIdx - start + 1) + M"
    using assms by linarith
  have lt: "endIdx - start + 1 < M" using assms by linarith
  have "(endIdx + M - start + 1) mod M = (endIdx - start + 1) mod M"
    unfolding eq by (rule mod_add_self2)
  also have "\<dots> = endIdx - start + 1" using lt by (rule mod_less)
  finally show ?thesis .
qed

lemma range_count_eq:
  assumes "start \<le> endIdx" "endIdx < n" "n < 2 ^ 64"
  shows "range_count start endIdx = endIdx - start + 1"
  unfolding range_count_def by (rule wrap_count[OF assms])

subsection \<open>The whole vector\<close>

lemma full_range_sum:
  assumes "xs \<noteq> []"
  shows "(\<Sum>k = 0..length xs - 1. f (xs ! k)) = sum_list (map f xs)"
proof -
  have "{0..length xs - 1} = {0..<length xs}" using assms by (cases xs) auto
  moreover have "sum_list (map f xs) = (\<Sum>k = 0..<length xs. f (xs ! k))"
    using sum_list_sum_nth[of "map f xs"] by simp
  ultimately show ?thesis by simp
qed

lemma MSE_full_unweighted:
  assumes "predictors \<noteq> []" "length predictors < 2 ^ 64"
  shows "MSEGain_Evaluate False predictors weights =
    Some (- (\<Sum>x\<leftarrow>predictors.
       (x - sum_list predictors / real (length predictors))\<^sup>2 / real (length predictors)))"
proof -
  have n: "length predictors - 1 < length predictors" using assms(1) by simp
  have b: "0 \<le> length predictors - 1 \<longrightarrow> length predictors - 1 < length predictors"
    using n by simp
  have cnt: "range_count 0 (length predictors - 1) = length predictors"
    using range_count_eq[OF le0 n assms(2)] assms(1) by simp
  have s: "(\<Sum>j = 0..length predictors - 1. predictors ! j) = sum_list predictors"
    using full_range_sum[OF assms(1), of "\<lambda>x. x"] by simp
  show ?thesis
    unfolding MSEGain_Evaluate_def MSE_unweighted_sum[OF b] cnt s
    using assms(1) full_range_sum[OF assms(1),
        of "\<lambda>x. (x - sum_list predictors / real (length predictors))\<^sup>2 / real (length predictors)"]
    by simp
qed

lemma MAD_full_unweighted:
  assumes "predictors \<noteq> []" "length predictors < 2 ^ 64"
  shows "MADGain_Evaluate False predictors weights =
    Some (- (\<Sum>x\<leftarrow>predictors.
       \<bar>x - sum_list predictors / real (length predictors)\<bar> / real (length predictors)))"
proof -
  have n: "length predictors - 1 < length predictors" using assms(1) by simp
  have b: "0 \<le> length predictors - 1 \<longrightarrow> length predictors - 1 < length predictors"
    using n by simp
  have cnt: "range_count 0 (length predictors - 1) = length predictors"
    using range_count_eq[OF le0 n assms(2)] assms(1) by simp
  have s: "(\<Sum>j = 0..length predictors - 1. predictors ! j) = sum_list predictors"
    using full_range_sum[OF assms(1), of "\<lambda>x. x"] by simp
  show ?thesis
    unfolding MADGain_Evaluate_def MAD_unweighted_sum[OF b] cnt s
    using assms(1) full_range_sum[OF assms(1),
        of "\<lambda>x. \<bar>x - sum_list predictors / real (length predictors)\<bar> / real (length predictors)"]
    by simp
qed

section \<open>Rounding\<close>

text \<open>
  The exponent search finds the binade of its argument; rounding moves a value by at most
  half a unit in the last place, and leaves a value with a 53-bit mantissa as it is.
\<close>

lemma es_range: "e \<le> expo_search n e x \<and> expo_search n e x \<le> e + int n"
proof (induction n arbitrary: e)
  case 0
  then show ?case by simp
next
  case (Suc n)
  show ?case using Suc[of "e + 1"] by auto
qed

lemma es_lower: "2 powi e \<le> x \<Longrightarrow> 2 powi (expo_search n e x) \<le> x"
  by (induction n arbitrary: e) auto

lemma es_upper: "expo_search n e x < e + int n \<Longrightarrow> x < 2 powi (expo_search n e x + 1)"
proof (induction n arbitrary: e)
  case 0
  then show ?case by simp
next
  case (Suc n)
  show ?case
  proof (cases "2 powi (e + 1) \<le> x")
    case True
    then show ?thesis using Suc.IH[of "e + 1"] Suc.prems by simp
  next
    case False
    then show ?thesis by simp
  qed
qed

lemma powi2_less_mono: "(2::real) powi a \<le> x \<Longrightarrow> x < 2 powi b \<Longrightarrow> a < b"
proof (rule ccontr)
  assume a: "2 powi a \<le> x" "x < 2 powi b" and n: "\<not> a < b"
  then have "(2::real) powi b \<le> 2 powi a" by (intro power_int_increasing) auto
  then show False using a by linarith
qed

lemma es_max: "2 powi e' \<le> x \<Longrightarrow> e \<le> e' \<Longrightarrow> e' \<le> e + int n \<Longrightarrow> e' \<le> expo_search n e x"
proof (induction n arbitrary: e)
  case 0
  then show ?case by simp
next
  case (Suc n)
  show ?case
  proof (cases "2 powi (e + 1) \<le> x")
    case True
    show ?thesis
    proof (cases "e' = e")
      case True
      then show ?thesis using es_range[of e "Suc n" x] by simp
    next
      case False
      then show ?thesis using Suc.IH[of "e + 1"] Suc.prems True by simp
    qed
  next
    case False
    then have "x < 2 powi (e + 1)" by simp
    then have "e' < e + 1" by (rule powi2_less_mono[OF Suc.prems(1)])
    then show ?thesis using False Suc.prems by simp
  qed
qed

lemma expo_ge: "emin \<le> expo x" and expo_le: "expo x \<le> emax"
  using es_range[of emin 2045 "\<bar>x\<bar>"] by (simp_all add: expo_def emin_def emax_def)

lemma expo_lower: "2 powi emin \<le> \<bar>x\<bar> \<Longrightarrow> 2 powi (expo x) \<le> \<bar>x\<bar>"
  unfolding expo_def by (rule es_lower)

lemma expo_upper: "\<bar>x\<bar> < 2 powi (emax + 1) \<Longrightarrow> \<bar>x\<bar> < 2 powi (expo x + 1)"
proof (cases "expo x < emax")
  case True
  then have "expo_search 2045 emin \<bar>x\<bar> < emin + int 2045"
    by (simp add: expo_def emin_def emax_def)
  then show ?thesis unfolding expo_def by (rule es_upper)
next
  case False
  assume "\<bar>x\<bar> < 2 powi (emax + 1)"
  moreover have "expo x = emax" using False expo_le[of x] by simp
  ultimately show ?thesis by simp
qed

lemma expo_eq:
  assumes "emin \<le> e" "e \<le> emax" "2 powi e \<le> \<bar>x\<bar>" "\<bar>x\<bar> < 2 powi (e + 1)"
  shows "expo x = e"
proof -
  have "e \<le> emin + int 2045" using assms(2) by (simp add: emin_def emax_def)
  then have "e \<le> expo x"
    unfolding expo_def using assms by (intro es_max) auto
  moreover have "2 powi emin \<le> \<bar>x\<bar>"
  proof -
    have "(2::real) powi emin \<le> 2 powi e" using assms(1) by (intro power_int_increasing) auto
    then show ?thesis using assms(3) by linarith
  qed
  then have "2 powi (expo x) \<le> \<bar>x\<bar>" by (rule expo_lower)
  then have "expo x < e + 1" using assms(4) by (rule powi2_less_mono)
  ultimately show ?thesis by simp
qed

lemma expo_small: "\<bar>x\<bar> < 2 powi (emin + 1) \<Longrightarrow> expo x = emin"
proof -
  assume a: "\<bar>x\<bar> < 2 powi (emin + 1)"
  have n: "(2045::nat) = Suc 2044" by simp
  show ?thesis unfolding expo_def n by (subst expo_search.simps(2)) (use a in simp)
qed

lemma ulp_pos: "0 < ulp x" by (simp add: ulp_def)

lemma round_even_err: "\<bar>of_int (round_even y) - y\<bar> \<le> 1 / 2"
  unfolding round_even_def Let_def by (auto; linarith)

lemma round_even_int [simp]: "round_even (of_int m) = m"
  by (simp add: round_even_def)

lemma round_even_nonneg: "0 \<le> y \<Longrightarrow> 0 \<le> round_even y"
  unfolding round_even_def Let_def by (auto simp: ; linarith?)

lemma rnd_abs_err: "\<bar>rnd x - x\<bar> \<le> ulp x / 2"
proof -
  have "rnd x - x = (of_int (round_even (x / ulp x)) - x / ulp x) * ulp x"
    using ulp_pos[of x] by (simp add: rnd_def field_simps)
  then have "\<bar>rnd x - x\<bar> = \<bar>of_int (round_even (x / ulp x)) - x / ulp x\<bar> * ulp x"
    using ulp_pos[of x] by (simp add: abs_mult)
  also have "\<dots> \<le> 1 / 2 * ulp x"
    using round_even_err[of "x / ulp x"] ulp_pos[of x] by (intro mult_right_mono) auto
  finally show ?thesis by simp
qed

lemma ulp_le: "2 powi emin \<le> \<bar>x\<bar> \<Longrightarrow> ulp x \<le> \<bar>x\<bar> / 2 ^ 52"
proof -
  assume "2 powi emin \<le> \<bar>x\<bar>"
  then have "2 powi (expo x) \<le> \<bar>x\<bar>" by (rule expo_lower)
  moreover have "ulp x = 2 powi (expo x) / 2 ^ 52"
    by (simp add: ulp_def power_int_diff)
  ultimately show ?thesis by (simp add: divide_right_mono)
qed

lemma rnd_rel_err: "2 powi emin \<le> \<bar>x\<bar> \<Longrightarrow> \<bar>rnd x - x\<bar> \<le> \<bar>x\<bar> / 2 ^ 53"
proof -
  assume a: "2 powi emin \<le> \<bar>x\<bar>"
  have "\<bar>rnd x - x\<bar> \<le> ulp x / 2" by (rule rnd_abs_err)
  also have "\<dots> \<le> (\<bar>x\<bar> / 2 ^ 52) / 2" using ulp_le[OF a] by simp
  also have "\<dots> = \<bar>x\<bar> / 2 ^ 53" by simp
  finally show ?thesis .
qed

lemma rnd_zero [simp]: "rnd 0 = 0"
  using round_even_int[of 0] by (simp add: rnd_def)

lemma div_eq: "0 < u \<Longrightarrow> y = c * u \<Longrightarrow> y / u = (c::real)"
  by simp

lemma rnd_exact:
  assumes x: "x = of_int m * 2 powi k" and m: "\<bar>m\<bar> < 2 ^ 53" and k: "emin - 52 \<le> k"
  shows "rnd x = x"
proof (cases "m = 0")
  case True
  then show ?thesis using x by simp
next
  case False
  have ax: "\<bar>x\<bar> = of_int \<bar>m\<bar> * 2 powi k" by (simp add: x abs_mult)
  have e: "expo x - 52 \<le> k"
  proof (cases "\<bar>x\<bar> < 2 powi emin")
    case True
    have "(2::real) powi emin \<le> 2 powi (emin + 1)" by (intro power_int_increasing) auto
    then have "expo x = emin" using True by (intro expo_small) linarith
    then show ?thesis using k by simp
  next
    case False
    then have "2 powi (expo x) \<le> \<bar>x\<bar>" by (intro expo_lower) simp
    moreover have "\<bar>x\<bar> < 2 powi (53 + k)"
    proof -
      have "real_of_int \<bar>m\<bar> < 2 ^ 53" using m by (metis of_int_less_numeral_power_cancel_iff)
      then have "of_int \<bar>m\<bar> * 2 powi k < (2::real) ^ 53 * 2 powi k"
        by (intro mult_strict_right_mono) auto
      also have "\<dots> = 2 powi (53 + k)" by (simp add: power_int_add)
      finally show ?thesis using ax by simp
    qed
    ultimately have "expo x < 53 + k" by (rule powi2_less_mono)
    then show ?thesis by simp
  qed
  define j where "j = nat (k - (expo x - 52))"
  have kj: "k = (expo x - 52) + int j" using e by (simp add: j_def)
  have pk: "2 powi k = ulp x * 2 ^ j"
    unfolding ulp_def by (subst kj) (simp add: power_int_add)
  have "of_int m * 2 powi k = of_int m * 2 ^ j * ulp x"
    by (simp only: pk mult_ac)
  then have "x = of_int m * 2 ^ j * ulp x" by (simp only: x)
  then have "x / ulp x = of_int m * 2 ^ j" by (rule div_eq[OF ulp_pos])
  also have "\<dots> = of_int (m * 2 ^ j)" by simp
  finally have "x / ulp x = of_int (m * 2 ^ j)" .
  then have "rnd x = (x / ulp x) * ulp x" unfolding rnd_def by (simp del: of_int_mult of_int_power)
  then show ?thesis using ulp_pos[of x] by simp
qed

lemma round64_fin: "\<bar>rnd x\<bar> < 2 powi (emax + 1) \<Longrightarrow> round64 x = Fin (rnd x)"
  by (auto simp: round64_def Let_def)

lemma round64_exact:
  assumes "x = of_int m * 2 powi k" "\<bar>m\<bar> < 2 ^ 53" "emin - 52 \<le> k" "\<bar>x\<bar> < 2 powi (emax + 1)"
  shows "round64 x = Fin x"
  using round64_fin[of x] rnd_exact[OF assms(1,2,3)] assms(4) by simp

lemma small_finite: "\<bar>x\<bar> \<le> 2 ^ 64 \<Longrightarrow> \<bar>x :: real\<bar> < 2 powi (emax + 1)"
proof -
  assume "\<bar>x\<bar> \<le> 2 ^ 64"
  moreover have "(2::real) powi 64 < 2 powi (emax + 1)"
    by (intro power_int_strict_increasing) (auto simp: emax_def)
  ultimately show ?thesis by simp
qed

lemma round64_int:
  assumes "\<bar>k\<bar> \<le> 2 ^ 53"
  shows "round64 (of_int k) = Fin (of_int k)"
proof (cases "\<bar>k\<bar> < 2 ^ 53")
  case True
  have "real_of_int \<bar>k\<bar> \<le> 2 ^ 53" using assms
    by (metis of_int_le_numeral_power_cancel_iff)
  then have "\<bar>real_of_int k\<bar> \<le> 2 ^ 64" by simp
  then show ?thesis
    using True by (intro round64_exact[of _ k 0] small_finite) (simp_all add: emin_def)
next
  case False
  then have "\<bar>k\<bar> = 2 ^ 53" using assms by simp
  then consider "k = 2 ^ 53" | "k = - (2 ^ 53)" by (cases "0 \<le> k") auto
  then show ?thesis
  proof cases
    case 1
    show ?thesis unfolding 1
      by (intro round64_exact[of _ "2 ^ 52" 1] small_finite) (simp_all add: emin_def)
  next
    case 2
    show ?thesis unfolding 2
      by (intro round64_exact[of _ "- (2 ^ 52)" 1] small_finite) (simp_all add: emin_def)
  qed
qed

subsection \<open>The binary64 loops as folds\<close>

lemma indices_Cons: "start \<le> endIdx \<Longrightarrow> indices start endIdx = start # indices (Suc start) endIdx"
  by (simp add: indices_def upt_conv_Cons)

lemma indices_Nil: "\<not> start \<le> endIdx \<Longrightarrow> indices start endIdx = []"
  by (simp add: indices_def)

lemma set_indices: "set (indices start endIdx) = {start..endIdx}"
  by (auto simp: indices_def)

lemma for_loop_fold:
  assumes "\<And>k acc. start \<le> k \<Longrightarrow> k \<le> endIdx \<Longrightarrow> body k acc = Some (step k acc)"
  shows "for_loop start endIdx body acc = Some (fold step (indices start endIdx) acc)"
  using assms
proof (induction start endIdx body acc rule: for_loop.induct)
  case (1 i endIdx body acc)
  show ?case
  proof (cases "i \<le> endIdx")
    case True
    have s: "body i acc = Some (step i acc)" using 1(2) True by simp
    have "for_loop (Suc i) endIdx body (step i acc)
            = Some (fold step (indices (Suc i) endIdx) (step i acc))"
      using 1(1)[OF True s] 1(2) by simp
    then show ?thesis
      using True s by (subst for_loop.simps) (simp add: indices_Cons[OF True])
  next
    case False
    then show ?thesis by (subst for_loop.simps) (simp add: indices_Nil)
  qed
qed

lemma elem64_in: "i < length v \<Longrightarrow> elem64 v i = Some (v ! i)"
  by (simp add: elem64_def)

lemma weights_loop64:
  assumes "start \<le> endIdx \<longrightarrow> endIdx < length predictors \<and> endIdx < length weights"
  shows "for_loop start endIdx
           (\<lambda>i (accWeights, weightedMean).
              elem64 weights i \<bind> (\<lambda>w. elem64 predictors i \<bind>
                (\<lambda>p. Some (dadd accWeights w, dadd weightedMean (dmul p w))))) (Fin 0, Fin 0)
         = Some (fold (wsum_step predictors weights) (indices start endIdx) (Fin 0, Fin 0))"
  by (rule for_loop_fold) (use assms in \<open>auto simp: elem64_in wsum_step_def\<close>)




lemma round64_zero [simp]: "round64 0 = Fin 0"
  using round64_int[of 0] by simp


lemma round64_numeral:
  "numeral n \<le> (2::int) ^ 53 \<Longrightarrow> round64 (numeral n) = Fin (numeral n)"
  using round64_int[of "numeral n"] by simp

lemma round64_neg_numeral:
  "numeral n \<le> (2::int) ^ 53 \<Longrightarrow> round64 (- numeral n) = Fin (- numeral n)"
  using round64_int[of "- numeral n"] by simp

lemma round64_one [simp]: "round64 1 = Fin 1"
  using round64_int[of 1] by simp

lemma round64_minus_one [simp]: "round64 (- 1) = Fin (- 1)"
  using round64_int[of "- 1"] by simp

lemma round64_at:
  assumes "emin \<le> e" "e \<le> emax" "2 powi e \<le> \<bar>x\<bar>" "\<bar>x\<bar> < 2 powi (e + 1)"
    and "y = of_int (round_even (x / 2 powi (e - 52))) * 2 powi (e - 52)"
    and "\<bar>y\<bar> \<le> 2 ^ 64"
  shows "round64 x = Fin y"
proof -
  have "expo x = e" using assms(1-4) by (rule expo_eq)
  then have "rnd x = y" by (simp add: rnd_def ulp_def assms(5))
  then show ?thesis using round64_fin[of x] small_finite[OF assms(6)] by simp
qed


subsection \<open>Results of operations are binary64 values\<close>

lemma round_even_neg: "round_even (- y) = - round_even y"
proof (cases "y = of_int \<lfloor>y\<rfloor>")
  case True
  then obtain m where m: "y = of_int m" by metis
  have "round_even (of_int (- m)) = - m" by (rule round_even_int)
  then show ?thesis by (simp add: m)
next
  case False
  have "\<lceil>y\<rceil> = \<lfloor>y\<rfloor> + 1" using False by (simp add: ceiling_altdef)
  then have f: "\<lfloor>- y\<rfloor> = - \<lfloor>y\<rfloor> - 1" by (simp add: ceiling_def)
  have d: "0 < y - of_int \<lfloor>y\<rfloor>" "y - of_int \<lfloor>y\<rfloor> < 1"
    using False by (simp_all add: less_le) linarith+
  show ?thesis
    unfolding round_even_def Let_def f using d by (auto simp: algebra_simps)
qed

lemma round_even_bound:
  assumes "\<bar>y\<bar> \<le> of_int N"
  shows "\<bar>round_even y\<bar> \<le> N"
proof -
  have "\<bar>of_int (round_even y) - y\<bar> \<le> 1 / 2" by (rule round_even_err)
  then have "\<bar>real_of_int (round_even y)\<bar> \<le> of_int N + 1 / 2" using assms by linarith
  then have "real_of_int \<bar>round_even y\<bar> < of_int (N + 1)" by simp
  then have "\<bar>round_even y\<bar> < N + 1" by (simp only: of_int_less_iff)
  then show ?thesis by simp
qed

lemma expo_neg [simp]: "expo (- x) = expo x"
  by (simp add: expo_def)

lemma ulp_neg [simp]: "ulp (- x) = ulp x"
  by (simp add: ulp_def)

lemma rnd_neg: "rnd (- x) = - rnd x"
  by (simp add: rnd_def round_even_neg)

lemma rnd_repr:
  assumes "\<bar>rnd x\<bar> < 2 powi (emax + 1)"
  shows "\<exists>m k. rnd x = of_int m * 2 powi k \<and> \<bar>m\<bar> < 2 ^ 53 \<and> emin - 52 \<le> k"
proof -
  define M where "M = round_even (x / ulp x)"
  define e where "e = expo x"
  have r: "rnd x = of_int M * 2 powi (e - 52)" by (simp add: rnd_def ulp_def M_def e_def)
  have Mle: "\<bar>M\<bar> \<le> 2 ^ 53"
  proof (cases "e < emax")
    case True
    then have "expo_search 2045 emin \<bar>x\<bar> < emin + int 2045"
      by (simp add: e_def expo_def emin_def emax_def)
    then have "\<bar>x\<bar> < 2 powi (e + 1)" unfolding e_def expo_def by (rule es_upper)
    also have "\<dots> = 2 ^ 53 * ulp x" by (simp add: ulp_def e_def power_int_add power_int_diff)
    finally have "\<bar>x / ulp x\<bar> < 2 ^ 53" using ulp_pos[of x] by (simp add: field_simps)
    then have "\<bar>x / ulp x\<bar> \<le> of_int (2 ^ 53)" by simp
    then show ?thesis unfolding M_def by (rule round_even_bound)
  next
    case False
    then have e: "e = emax" using expo_le[of x] by (simp add: e_def)
    have "\<bar>rnd x\<bar> = of_int \<bar>M\<bar> * 2 powi (emax - 52)" by (simp add: r e abs_mult)
    moreover have "(2::real) powi (emax + 1) = 2 ^ 53 * 2 powi (emax - 52)"
      by (simp add: power_int_add power_int_diff)
    ultimately have "of_int \<bar>M\<bar> * 2 powi (emax - 52) < (2::real) ^ 53 * 2 powi (emax - 52)"
      using assms by simp
    then have "real_of_int \<bar>M\<bar> < 2 ^ 53" by simp
    then have "\<bar>M\<bar> < 2 ^ 53" by (metis of_int_less_numeral_power_cancel_iff)
    then show ?thesis by simp
  qed
  have ek: "emin - 52 \<le> e - 52" using expo_ge[of x] by (simp add: e_def)
  show ?thesis
  proof (cases "\<bar>M\<bar> < 2 ^ 53")
    case True
    then show ?thesis using r ek by blast
  next
    case False
    then have "\<bar>M\<bar> = 2 ^ 53" using Mle by simp
    then consider "M = 2 ^ 53" | "M = - (2 ^ 53)" by (cases "0 \<le> M") auto
    then show ?thesis
    proof cases
      case 1
      have "rnd x = of_int (2 ^ 52) * 2 powi (e - 51)"
        unfolding r 1 by (simp add: power_int_diff)
      moreover have "\<bar>(2::int) ^ 52\<bar> < 2 ^ 53" by simp
      moreover have "emin - 52 \<le> e - 51" using ek by simp
      ultimately show ?thesis by blast
    next
      case 2
      have "rnd x = of_int (- (2 ^ 52)) * 2 powi (e - 51)"
        unfolding r 2 by (simp add: power_int_diff)
      moreover have "\<bar>- ((2::int) ^ 52)\<bar> < 2 ^ 53" by simp
      moreover have "emin - 52 \<le> e - 51" using ek by simp
      ultimately show ?thesis by blast
    qed
  qed
qed

lemma rnd_idem:
  assumes "\<bar>rnd x\<bar> < 2 powi (emax + 1)"
  shows "rnd (rnd x) = rnd x"
proof -
  obtain m k where "rnd x = of_int m * 2 powi k" "\<bar>m\<bar> < 2 ^ 53" "emin - 52 \<le> k"
    using rnd_repr[OF assms] by blast
  then show ?thesis by (rule rnd_exact)
qed

lemma is_double_round64 [simp]: "is_double (round64 x)"
proof (cases "\<bar>rnd x\<bar> < 2 powi (emax + 1)")
  case True
  then have "round64 x = Fin (rnd x)" by (rule round64_fin)
  moreover have "round64 (rnd x) = Fin (rnd x)"
    using round64_fin[of "rnd x"] rnd_idem[OF True] True by simp
  ultimately show ?thesis by (simp add: is_double_def)
next
  case False
  then show ?thesis by (auto simp: is_double_def round64_def Let_def)
qed

lemma is_double_consts [simp]: "is_double PInf" "is_double NInf" "is_double NaN" "is_double (Fin 0)"
  "is_double (Fin 1)"
  by (simp_all add: is_double_def)

lemma is_double_dadd [simp]: "is_double (dadd a b)"
  by (cases a; cases b) simp_all

lemma is_double_dmul [simp]: "is_double (dmul a b)"
  by (cases a; cases b) simp_all

lemma is_double_ddiv [simp]: "is_double (ddiv a b)"
  by (cases a; cases b) simp_all

lemma round64_neg: "round64 (- x) = dneg (round64 x)"
proof -
  define T :: real where "T = 2 powi (emax + 1)"
  have "0 < T" by (simp add: T_def)
  then show ?thesis unfolding round64_def Let_def rnd_neg T_def[symmetric] by auto
qed

lemma is_double_dneg [simp]: "is_double a \<Longrightarrow> is_double (dneg a)"
  by (cases a) (simp_all add: is_double_def round64_neg)

lemma is_double_dabs [simp]: "is_double a \<Longrightarrow> is_double (dabs a)"
proof (cases a)
  case (Fin x)
  assume "is_double a"
  then show ?thesis using Fin is_double_dneg[of a] by (cases "0 \<le> x") (simp_all add: abs_if)
qed simp_all

lemma is_double_dsub [simp]: "is_double (dsub a b)"
  by (simp add: dsub_def)

lemma dmul_one_right: "is_double p \<Longrightarrow> dmul p (Fin 1) = p"
  by (cases p) (simp_all add: is_double_def)

lemma dmul_one_left: "is_double p \<Longrightarrow> dmul (Fin 1) p = p"
  by (cases p) (simp_all add: is_double_def)

subsection \<open>The binary64 gains as folds\<close>

lemma sum_loop64:
  assumes "start \<le> endIdx \<longrightarrow> endIdx < length predictors"
  shows "for_loop start endIdx (\<lambda>i mean. elem64 predictors i \<bind> (\<lambda>p. Some (dadd mean p))) (Fin 0)
         = Some (fold (sum_step predictors) (indices start endIdx) (Fin 0))"
  by (rule for_loop_fold) (use assms in \<open>auto simp: elem64_in sum_step_def\<close>)

lemma MSE64_unweighted_fold:
  assumes "start \<le> endIdx \<longrightarrow> endIdx < length predictors"
  shows "MSEGain_Evaluate_range64 False predictors weights start endIdx =
    Some (dneg (fold
      (acc_step (\<lambda>i. dmul (Fin 1) (dpow2 (dsub (predictors ! i)
           (ddiv (fold (sum_step predictors) (indices start endIdx) (Fin 0))
              (double_of_size (range_count start endIdx))))))
         (double_of_size (range_count start endIdx)))
      (indices start endIdx) (Fin 0)))"
proof -
  have b: "for_loop start endIdx
      (\<lambda>i mse. elem64 predictors i \<bind>
         (\<lambda>p. Some (dadd mse (ddiv (dmul (Fin 1) (dpow2 (dsub p m))) c)))) (Fin 0)
    = Some (fold (acc_step (\<lambda>i. dmul (Fin 1) (dpow2 (dsub (predictors ! i) m))) c)
         (indices start endIdx) (Fin 0))" for m c
    by (rule for_loop_fold) (use assms in \<open>auto simp: elem64_in acc_step_def\<close>)
  show ?thesis
    unfolding MSEGain_Evaluate_range64_def by (simp add: sum_loop64[OF assms] b Let_def)
qed

lemma MAD64_unweighted_fold:
  assumes "start \<le> endIdx \<longrightarrow> endIdx < length predictors"
  shows "MADGain_Evaluate_range64 False predictors weights start endIdx =
    Some (dneg (fold
      (acc_step (\<lambda>i. dabs (dsub (predictors ! i)
           (ddiv (fold (sum_step predictors) (indices start endIdx) (Fin 0))
              (double_of_size (range_count start endIdx)))))
         (double_of_size (range_count start endIdx)))
      (indices start endIdx) (Fin 0)))"
proof -
  have b: "for_loop start endIdx
      (\<lambda>i mad. elem64 predictors i \<bind>
         (\<lambda>p. Some (dadd mad (ddiv (dabs (dsub p m)) c)))) (Fin 0)
    = Some (fold (acc_step (\<lambda>i. dabs (dsub (predictors ! i) m)) c)
         (indices start endIdx) (Fin 0))" for m c
    by (rule for_loop_fold) (use assms in \<open>auto simp: elem64_in acc_step_def\<close>)
  show ?thesis
    unfolding MADGain_Evaluate_range64_def by (simp add: sum_loop64[OF assms] b Let_def)
qed

lemma MSE64_weighted_fold:
  assumes "start \<le> endIdx \<longrightarrow> endIdx < length predictors \<and> endIdx < length weights"
    and "fold (wsum_step predictors weights) (indices start endIdx) (Fin 0, Fin 0) = (aw, wm)"
  shows "MSEGain_Evaluate_range64 True predictors weights start endIdx =
    (if aw = Fin 0 then Some (Fin 0)
     else Some (dneg (fold
       (acc_step (\<lambda>i. dmul (weights ! i) (dpow2 (dsub (predictors ! i) (ddiv wm aw)))) aw)
       (indices start endIdx) (Fin 0))))"
proof -
  have b: "for_loop start endIdx
      (\<lambda>i mse. elem64 weights i \<bind> (\<lambda>w. elem64 predictors i \<bind>
         (\<lambda>p. Some (dadd mse (ddiv (dmul w (dpow2 (dsub p m))) c))))) (Fin 0)
    = Some (fold (acc_step (\<lambda>i. dmul (weights ! i) (dpow2 (dsub (predictors ! i) m))) c)
         (indices start endIdx) (Fin 0))" for m c
    by (rule for_loop_fold) (use assms in \<open>auto simp: elem64_in acc_step_def\<close>)
  show ?thesis
    unfolding MSEGain_Evaluate_range64_def
    by (simp add: weights_loop64[OF assms(1)] assms(2) b Let_def)
qed

lemma MAD64_weighted_fold:
  assumes "start \<le> endIdx \<longrightarrow> endIdx < length predictors \<and> endIdx < length weights"
    and "fold (wsum_step predictors weights) (indices start endIdx) (Fin 0, Fin 0) = (aw, wm)"
  shows "MADGain_Evaluate_range64 True predictors weights start endIdx =
    (if aw = Fin 0 then Some (Fin 0)
     else Some (dneg (fold
       (acc_step (\<lambda>i. dmul (weights ! i) (dabs (dsub (predictors ! i) (ddiv wm aw)))) aw)
       (indices start endIdx) (Fin 0))))"
proof -
  have b: "for_loop start endIdx
      (\<lambda>i mad. elem64 weights i \<bind> (\<lambda>w. elem64 predictors i \<bind>
         (\<lambda>p. Some (dadd mad (ddiv (dmul w (dabs (dsub p m))) c))))) (Fin 0)
    = Some (fold (acc_step (\<lambda>i. dmul (weights ! i) (dabs (dsub (predictors ! i) m))) c)
         (indices start endIdx) (Fin 0))" for m c
    by (rule for_loop_fold) (use assms in \<open>auto simp: elem64_in acc_step_def\<close>)
  show ?thesis
    unfolding MADGain_Evaluate_range64_def
    by (simp add: weights_loop64[OF assms(1)] assms(2) b Let_def)
qed

lemma round64_nat: "n \<le> 2 ^ 53 \<Longrightarrow> round64 (real n) = Fin (real n)"
proof -
  assume "n \<le> 2 ^ 53"
  then have "int n \<le> int (2 ^ 53)" by (simp only: of_nat_le_iff)
  also have "int (2 ^ 53) = 2 ^ 53" by (simp only: of_nat_power of_nat_numeral)
  finally have "\<bar>int n\<bar> \<le> 2 ^ 53" by simp
  then show ?thesis using round64_int[of "int n"] by simp
qed

lemma unit_weights_fold:
  assumes "\<forall>i \<in> set is. w ! i = Fin 1 \<and> is_double (p ! i)"
    and "a + length is \<le> 2 ^ 53"
  shows "fold (wsum_step p w) is (Fin (real a), b)
           = (Fin (real (a + length is)), fold (sum_step p) is b)"
  using assms
proof (induction "is" arbitrary: a b)
  case Nil
  then show ?case by simp
next
  case (Cons i "is")
  have "dadd (Fin (real a)) (Fin 1) = Fin (real (Suc a))"
    using round64_nat[of "Suc a"] Cons.prems(2) by (simp add: add.commute)
  moreover have "dmul (p ! i) (Fin 1) = p ! i"
    using Cons.prems(1) by (intro dmul_one_right) simp
  ultimately have "wsum_step p w i (Fin (real a), b) = (Fin (real (Suc a)), sum_step p i b)"
    using Cons.prems(1) by (simp add: wsum_step_def sum_step_def)
  then show ?case using Cons.IH[of "Suc a" "sum_step p i b"] Cons.prems by simp
qed

lemma length_indices: "start \<le> endIdx \<Longrightarrow> length (indices start endIdx) = Suc endIdx - start"
  by (simp add: indices_def)

lemma acc_step_cong:
  assumes "\<And>i. i \<in> set is \<Longrightarrow> t i = u i"
  shows "fold (acc_step t c) is a = fold (acc_step u c) is a"
  using assms by (intro fold_cong) (auto simp: acc_step_def)

lemma unit_weights_gain:
  assumes ne: "predictors \<noteq> []" and len: "length predictors \<le> 2 ^ 53"
    and n: "length predictors \<le> n" and dbl: "\<forall>p \<in> set predictors. is_double p"
  shows "MSEGain_Evaluate64 True predictors (replicate n (Fin 1))
           = MSEGain_Evaluate64 False predictors weights"
    and "MADGain_Evaluate64 True predictors (replicate n (Fin 1))
           = MADGain_Evaluate64 False predictors weights"
    and "\<exists>g. MSEGain_Evaluate64 False predictors weights = Some g"
    and "\<exists>g. MADGain_Evaluate64 False predictors weights = Some g"
proof -
  define N where "N = length predictors"
  define e where "e = N - 1"
  define w where "w = replicate n (Fin 1)"
  define idx where "idx = indices 0 e"
  define S where "S = fold (sum_step predictors) idx (Fin 0)"
  have Npos: "0 < N" using ne by (simp add: N_def)
  have eN: "e < N" "Suc e = N" using Npos by (simp_all add: e_def)
  have N53: "N \<le> 2 ^ 53" using len by (simp add: N_def)
  have "(2::nat) ^ 53 < 2 ^ 64" by simp
  then have N64: "N < 2 ^ 64" using N53 by (rule le_less_trans[rotated])
  have bu: "0 \<le> e \<longrightarrow> e < length predictors" using eN by (simp add: N_def)
  have bw: "0 \<le> e \<longrightarrow> e < length predictors \<and> e < length w"
    using eN n by (simp add: N_def w_def)
  have mem: "w ! i = Fin 1 \<and> is_double (predictors ! i)" if "i \<in> set idx" for i
  proof -
    have "i \<le> e" using that by (simp add: idx_def set_indices)
    then have "i < N" using eN by simp
    then show ?thesis using n dbl by (simp add: w_def N_def)
  qed
  have li: "length idx = N" using eN by (simp add: idx_def length_indices)
  have "fold (wsum_step predictors w) idx (Fin (real 0), Fin 0)
          = (Fin (real (0 + length idx)), fold (sum_step predictors) idx (Fin 0))"
    using mem N53 li by (intro unit_weights_fold) auto
  then have "fold (wsum_step predictors w) idx (Fin 0, Fin 0) = (Fin (real N), S)"
    unfolding li S_def by simp
  then have wf: "fold (wsum_step predictors w) (indices 0 e) (Fin 0, Fin 0) = (Fin (real N), S)"
    by (simp only: idx_def)
  have cnt: "double_of_size (range_count 0 e) = Fin (real N)"
    using range_count_eq[OF le0 eN(1) N64] round64_nat[OF N53] eN
    by (simp add: double_of_size_def)
  have nz: "Fin (real N) \<noteq> Fin 0" using Npos by simp
  have mem': "w ! i = Fin 1 \<and> is_double (predictors ! i)" if "i \<in> set (indices 0 e)" for i
    using mem that by (simp add: idx_def)
  have tw: "fold (acc_step (\<lambda>i. dmul (w ! i) (dpow2 (dsub (predictors ! i) m))) c) (indices 0 e) a
          = fold (acc_step (\<lambda>i. dmul (Fin 1) (dpow2 (dsub (predictors ! i) m))) c) (indices 0 e) a"
    for m c a
    by (rule acc_step_cong) (use mem' in simp)
  have ta: "fold (acc_step (\<lambda>i. dmul (w ! i) (dabs (dsub (predictors ! i) m))) c) (indices 0 e) a
          = fold (acc_step (\<lambda>i. dabs (dsub (predictors ! i) m)) c) (indices 0 e) a"
    for m c a
    by (rule acc_step_cong) (use mem' in \<open>simp add: dmul_one_left\<close>)
  have Sd: "S = fold (sum_step predictors) (indices 0 e) (Fin 0)" by (simp add: S_def idx_def)
  have mse: "MSEGain_Evaluate_range64 True predictors w 0 e
               = MSEGain_Evaluate_range64 False predictors weights 0 e"
    unfolding MSE64_weighted_fold[OF bw wf] MSE64_unweighted_fold[OF bu] cnt Sd[symmetric] tw
    using nz by simp
  have mad: "MADGain_Evaluate_range64 True predictors w 0 e
               = MADGain_Evaluate_range64 False predictors weights 0 e"
    unfolding MAD64_weighted_fold[OF bw wf] MAD64_unweighted_fold[OF bu] cnt Sd[symmetric] ta
    using nz by simp
  have rs: "\<exists>g. MSEGain_Evaluate_range64 False predictors weights 0 e = Some g"
    unfolding MSE64_unweighted_fold[OF bu] by blast
  have ra: "\<exists>g. MADGain_Evaluate_range64 False predictors weights 0 e = Some g"
    unfolding MAD64_unweighted_fold[OF bu] by blast
  show "MSEGain_Evaluate64 True predictors (replicate n (Fin 1))
           = MSEGain_Evaluate64 False predictors weights"
    using mse ne by (simp add: MSEGain_Evaluate64_def w_def e_def N_def)
  show "MADGain_Evaluate64 True predictors (replicate n (Fin 1))
           = MADGain_Evaluate64 False predictors weights"
    using mad ne by (simp add: MADGain_Evaluate64_def w_def e_def N_def)
  show "\<exists>g. MSEGain_Evaluate64 False predictors weights = Some g"
    using rs ne by (simp add: MSEGain_Evaluate64_def e_def N_def)
  show "\<exists>g. MADGain_Evaluate64 False predictors weights = Some g"
    using ra ne by (simp add: MADGain_Evaluate64_def e_def N_def)
qed

subsection \<open>The whole vector in binary64\<close>

text \<open>
  Over the whole vector the loops run over the elements themselves. Sums of small
  integers are exact; adding \<open>N\<close> times the rounded quotient \<open>1 / N\<close> ends within
  \<open>(2 * N + 1) / 2 ^ 53\<close> of 1.
\<close>

lemma sum_fold_elems:
  "fold (sum_step v) is acc = fold (\<lambda>x acc. dadd acc x) (map (\<lambda>i. v ! i) is) acc"
  by (induction "is" arbitrary: acc) (simp_all add: sum_step_def)

lemma acc_fold_elems:
  "fold (acc_step (\<lambda>i. T (v ! i)) c) is acc
     = fold (\<lambda>x acc. dadd acc (ddiv (T x) c)) (map (\<lambda>i. v ! i) is) acc"
  by (induction "is" arbitrary: acc) (simp_all add: acc_step_def)

lemma indices_full: "v \<noteq> [] \<Longrightarrow> map (\<lambda>i. v ! i) (indices 0 (length v - 1)) = v"
  by (simp add: indices_def map_nth)

lemma full_count:
  assumes "v \<noteq> []" "length v \<le> 2 ^ 53"
  shows "double_of_size (range_count 0 (length v - 1)) = Fin (real (length v))"
proof -
  have "(2::nat) ^ 53 < 2 ^ 64" by simp
  then have l: "length v < 2 ^ 64" using assms(2) by (rule le_less_trans[rotated])
  have e: "length v - 1 < length v" using assms(1) by simp
  show ?thesis
    using range_count_eq[OF le0 e l] round64_nat[OF assms(2)] assms(1)
    by (simp add: double_of_size_def)
qed

lemma MSE64_full_unweighted:
  assumes "v \<noteq> []" "length v \<le> 2 ^ 53"
  shows "MSEGain_Evaluate64 False v w =
    Some (dneg (fold (\<lambda>x acc. dadd acc (ddiv
        (dmul (Fin 1) (dpow2 (dsub x
           (ddiv (fold (\<lambda>x acc. dadd acc x) v (Fin 0)) (Fin (real (length v)))))))
        (Fin (real (length v))))) v (Fin 0)))"
proof -
  have b: "0 \<le> length v - 1 \<longrightarrow> length v - 1 < length v" using assms(1) by simp
  show ?thesis
    unfolding MSEGain_Evaluate64_def MSE64_unweighted_fold[OF b] full_count[OF assms]
      sum_fold_elems indices_full[OF assms(1)]
      acc_fold_elems[where T = "\<lambda>x. dmul (Fin 1) (dpow2 (dsub x m))" for m]
    using assms(1) by simp
qed

lemma MAD64_full_unweighted:
  assumes "v \<noteq> []" "length v \<le> 2 ^ 53"
  shows "MADGain_Evaluate64 False v w =
    Some (dneg (fold (\<lambda>x acc. dadd acc (ddiv
        (dabs (dsub x
           (ddiv (fold (\<lambda>x acc. dadd acc x) v (Fin 0)) (Fin (real (length v))))))
        (Fin (real (length v))))) v (Fin 0)))"
proof -
  have b: "0 \<le> length v - 1 \<longrightarrow> length v - 1 < length v" using assms(1) by simp
  show ?thesis
    unfolding MADGain_Evaluate64_def MAD64_unweighted_fold[OF b] full_count[OF assms]
      sum_fold_elems indices_full[OF assms(1)]
      acc_fold_elems[where T = "\<lambda>x. dabs (dsub x m)" for m]
    using assms(1) by simp
qed

lemma even_sum64:
  fixes a s :: int
  assumes "set xs \<subseteq> {Fin (of_int a), Fin (of_int a + 2)}"
    and "\<bar>s\<bar> + (\<bar>a\<bar> + 2) * int (length xs) \<le> 2 ^ 53"
  shows "fold (\<lambda>x acc. dadd acc x) xs (Fin (of_int s)) =
         Fin (of_int (s + a * int (count_list xs (Fin (of_int a)))
                        + (a + 2) * int (count_list xs (Fin (of_int a + 2)))))"
  using assms
proof (induction xs arbitrary: s)
  case Nil
  show ?case by simp
next
  case (Cons x xs)
  define L where "L = (\<bar>a\<bar> + 2) * int (length xs)"
  have L0: "0 \<le> L" by (simp add: L_def)
  have pr: "\<bar>s\<bar> + (\<bar>a\<bar> + 2) + L \<le> 2 ^ 53"
    using Cons.prems(2) by (simp add: L_def algebra_simps)
  have sub: "set xs \<subseteq> {Fin (of_int a), Fin (of_int a + 2)}" using Cons.prems(1) by simp
  have ne: "Fin (of_int a) \<noteq> Fin (of_int a + 2)" by simp
  consider "x = Fin (of_int a)" | "x = Fin (of_int a + 2)" using Cons.prems(1) by auto
  then show ?case
  proof cases
    case 1
    have b: "\<bar>s + a\<bar> \<le> 2 ^ 53" using pr L0 by linarith
    have st: "dadd (Fin (of_int s)) x = Fin (of_int (s + a))"
      using round64_int[OF b] by (simp add: 1)
    have p': "\<bar>s + a\<bar> + (\<bar>a\<bar> + 2) * int (length xs) \<le> 2 ^ 53"
      using pr unfolding L_def by linarith
    have c1: "count_list (x # xs) (Fin (of_int a)) = Suc (count_list xs (Fin (of_int a)))"
      by (simp add: 1)
    have c2: "count_list (x # xs) (Fin (of_int a + 2)) = count_list xs (Fin (of_int a + 2))"
      using ne by (simp add: 1)
    have "fold (\<lambda>x acc. dadd acc x) (x # xs) (Fin (of_int s))
            = fold (\<lambda>x acc. dadd acc x) xs (Fin (of_int (s + a)))"
      by (simp only: fold_simps st)
    also have "\<dots> = Fin (of_int (s + a + a * int (count_list xs (Fin (of_int a)))
                        + (a + 2) * int (count_list xs (Fin (of_int a + 2)))))"
      by (rule Cons.IH[OF sub p'])
    also have "s + a + a * int (count_list xs (Fin (of_int a)))
                 = s + a * int (Suc (count_list xs (Fin (of_int a))))"
      by (simp add: algebra_simps)
    finally show ?thesis by (simp only: c1 c2)
  next
    case 2
    have b: "\<bar>s + (a + 2)\<bar> \<le> 2 ^ 53" using pr L0 by linarith
    have st: "dadd (Fin (of_int s)) x = Fin (of_int (s + (a + 2)))"
      using round64_int[OF b] by (simp add: 2)
    have p': "\<bar>s + (a + 2)\<bar> + (\<bar>a\<bar> + 2) * int (length xs) \<le> 2 ^ 53"
      using pr unfolding L_def by linarith
    have c1: "count_list (x # xs) (Fin (of_int a)) = count_list xs (Fin (of_int a))"
      using ne by (simp add: 2)
    have c2: "count_list (x # xs) (Fin (of_int a + 2)) = Suc (count_list xs (Fin (of_int a + 2)))"
      by (simp add: 2)
    have "fold (\<lambda>x acc. dadd acc x) (x # xs) (Fin (of_int s))
            = fold (\<lambda>x acc. dadd acc x) xs (Fin (of_int (s + (a + 2))))"
      by (simp only: fold_simps st)
    also have "\<dots> = Fin (of_int (s + (a + 2) + a * int (count_list xs (Fin (of_int a)))
                        + (a + 2) * int (count_list xs (Fin (of_int a + 2)))))"
      by (rule Cons.IH[OF sub p'])
    also have "s + (a + 2) + a * int (count_list xs (Fin (of_int a)))
                        + (a + 2) * int (count_list xs (Fin (of_int a + 2)))
                 = s + a * int (count_list xs (Fin (of_int a)))
                        + (a + 2) * int (Suc (count_list xs (Fin (of_int a + 2))))"
      by (simp add: algebra_simps)
    finally show ?thesis by (simp only: c1 c2)
  qed
qed

lemma even_counts64:
  assumes "set xs \<subseteq> {Fin (of_int a), Fin (of_int a + 2)}"
  shows "length xs = count_list xs (Fin (of_int a)) + count_list xs (Fin (of_int a + 2))"
  using assms by (induction xs) auto

lemma rnd_nonneg: "0 \<le> x \<Longrightarrow> 0 \<le> rnd x"
  unfolding rnd_def using round_even_nonneg[of "x / ulp x"] ulp_pos[of x] by simp

lemma emin_small: "2 powi emin \<le> (1::real) / 2 ^ 60"
proof -
  have "(2::real) powi emin \<le> 2 powi (- 60)"
    by (rule power_int_increasing) (simp_all add: emin_def)
  then show ?thesis by (simp add: power_int_minus field_simps)
qed

lemma round64_small:
  assumes "2 powi emin \<le> x" "x \<le> 2"
  shows "\<exists>y. round64 x = Fin y \<and> 0 \<le> y \<and> \<bar>y - x\<bar> \<le> 2 / 2 ^ 53"
proof -
  have e0: "(0::real) < 2 powi emin" by simp
  have x0: "0 \<le> x" using assms(1) e0 by linarith
  have "\<bar>rnd x - x\<bar> \<le> \<bar>x\<bar> / 2 ^ 53" using assms(1) x0 by (intro rnd_rel_err) simp
  also have "\<dots> \<le> 2 / 2 ^ 53" using assms(2) x0 by (simp add: divide_right_mono)
  finally have err: "\<bar>rnd x - x\<bar> \<le> 2 / 2 ^ 53" .
  have "(2::real) / 2 ^ 53 \<le> 1" by simp
  then have "\<bar>rnd x\<bar> \<le> 3" using err assms(2) x0 by linarith
  moreover have "(3::real) \<le> 2 ^ 64" by simp
  ultimately have "\<bar>rnd x\<bar> \<le> 2 ^ 64" by linarith
  then have "round64 x = Fin (rnd x)" using round64_fin small_finite by blast
  then show ?thesis using err rnd_nonneg[OF x0] by blast
qed

lemma acc_const:
  fixes r t :: real and N j :: nat
  assumes N: "N \<le> 2 ^ 26" and r: "\<bar>real N * r - 1\<bar> \<le> 1 / 2 ^ 53"
    and t: "0 \<le> t" "\<bar>t - real j * r\<bar> \<le> 2 * real j / 2 ^ 53"
    and j: "j + length xs \<le> N"
    and T: "\<forall>x \<in> set xs. ddiv (T x) c = Fin r"
  shows "\<exists>t'. fold (\<lambda>x acc. dadd acc (ddiv (T x) c)) xs (Fin t) = Fin t' \<and> 0 \<le> t' \<and>
           \<bar>t' - real (j + length xs) * r\<bar> \<le> 2 * real (j + length xs) / 2 ^ 53"
  using t j T
proof (induction xs arbitrary: t j)
  case Nil
  then show ?case by simp
next
  case (Cons x xs)
  have jN: "Suc j \<le> N" using Cons.prems(3) by simp
  then have Npos: "0 < real N" by simp
  have N26: "real N \<le> 2 ^ 26"
  proof -
    have "real N \<le> real (2 ^ 26)" using N by (simp only: of_nat_le_iff)
    then show ?thesis by simp
  qed
  have h: "(1::real) / 2 ^ 53 \<le> 1 / 2" by simp
  have rN: "1 / 2 \<le> real N * r" "real N * r \<le> 1 + 1 / 2 ^ 53" using r h by linarith+
  have rpos: "0 < r"
  proof (rule ccontr)
    assume "\<not> 0 < r"
    then have "real N * r \<le> 0" using Npos by (simp add: mult_le_0_iff)
    then show False using rN(1) by simp
  qed
  have rlow: "1 / 2 ^ 27 \<le> r"
  proof -
    have "real N * r \<le> 2 ^ 26 * r" by (rule mult_right_mono[OF N26]) (use rpos in simp)
    then have "1 / 2 \<le> 2 ^ 26 * r" using rN(1) by linarith
    then show ?thesis by (simp add: field_simps)
  qed
  define A where "A = real j * r"
  define B where "B = real (Suc j) * r"
  define E where "E = 2 * real j / 2 ^ 53"
  have jr: "B \<le> real N * r"
    unfolding B_def using jN rpos by (intro mult_right_mono) simp_all
  have ju: "E \<le> 1 / 2 ^ 26"
  proof -
    have "real j \<le> 2 ^ 26" using jN N26 by simp
    then show ?thesis by (simp add: E_def)
  qed
  have tA: "\<bar>t - A\<bar> \<le> E" using Cons.prems(2) by (simp only: A_def E_def)
  have S: "B = A + r" by (simp add: A_def B_def algebra_simps)
  have c: "(1::real) + 1 / 2 ^ 53 + 1 / 2 ^ 26 \<le> 2" by simp
  have up: "t + r \<le> 2" using tA jr rN(2) ju S c by linarith
  have "(2::real) powi emin \<le> 1 / 2 ^ 60" by (rule emin_small)
  also have "\<dots> \<le> 1 / 2 ^ 27" by simp
  also have "\<dots> \<le> t + r" using rlow Cons.prems(1) by linarith
  finally have lo: "2 powi emin \<le> t + r" .
  obtain y where y: "round64 (t + r) = Fin y" "0 \<le> y" "\<bar>y - (t + r)\<bar> \<le> 2 / 2 ^ 53"
    using round64_small[OF lo up] by blast
  have st: "dadd (Fin t) (ddiv (T x) c) = Fin y" using Cons.prems(4) y(1) by simp
  have E': "2 / 2 ^ 53 + E = 2 * real (Suc j) / 2 ^ 53" by (simp add: E_def field_simps)
  have "\<bar>y - B\<bar> \<le> 2 / 2 ^ 53 + E" using y(3) tA S by linarith
  then have e: "\<bar>y - real (Suc j) * r\<bar> \<le> 2 * real (Suc j) / 2 ^ 53"
    by (simp only: E' B_def)
  have l: "Suc j + length xs \<le> N" using Cons.prems(3) by simp
  have T': "\<forall>x \<in> set xs. ddiv (T x) c = Fin r" using Cons.prems(4) by simp
  obtain t' where t': "fold (\<lambda>x acc. dadd acc (ddiv (T x) c)) xs (Fin y) = Fin t'" "0 \<le> t'"
    "\<bar>t' - real (Suc j + length xs) * r\<bar> \<le> 2 * real (Suc j + length xs) / 2 ^ 53"
    using Cons.IH[OF y(2) e l T'] by blast
  have "fold (\<lambda>x acc. dadd acc (ddiv (T x) c)) (x # xs) (Fin t) = Fin t'"
    by (simp only: fold_simps st t'(1))
  moreover have "Suc j + length xs = j + length (x # xs)" by simp
  ultimately show ?case using t'(2,3) by metis
qed

lemma unit_term:
  assumes "0 < N" "N \<le> 2 ^ 26"
  shows "\<exists>r. ddiv (Fin 1) (Fin (real N)) = Fin r \<and> \<bar>real N * r - 1\<bar> \<le> 1 / 2 ^ 53"
proof -
  define x where "x = 1 / real N"
  have Npos: "0 < real N" using assms(1) by simp
  have N26: "real N \<le> 2 ^ 26"
  proof -
    have "real N \<le> real (2 ^ 26)" using assms(2) by (simp only: of_nat_le_iff)
    then show ?thesis by simp
  qed
  have N1: "1 \<le> real N" using assms(1) by simp
  have x0: "0 < x" using Npos by (simp add: x_def)
  have x1: "x \<le> 1" using N1 by (simp add: x_def)
  have xl: "1 / 2 ^ 26 \<le> x" unfolding x_def using N26 Npos by (intro divide_left_mono) simp_all
  have "(2::real) powi emin \<le> 1 / 2 ^ 60" by (rule emin_small)
  also have "\<dots> \<le> 1 / 2 ^ 26" by simp
  finally have lo: "2 powi emin \<le> \<bar>x\<bar>" using xl x0 by linarith
  have err: "\<bar>rnd x - x\<bar> \<le> x / 2 ^ 53" using rnd_rel_err[OF lo] x0 by simp
  have "x / 2 ^ 53 \<le> 1" using x1 x0 by (simp add: field_simps)
  then have "\<bar>rnd x\<bar> \<le> 2" using err x1 x0 by linarith
  moreover have "(2::real) \<le> 2 ^ 64" by simp
  ultimately have "\<bar>rnd x\<bar> \<le> 2 ^ 64" by linarith
  then have f: "round64 x = Fin (rnd x)" using round64_fin small_finite by blast
  have Nx: "real N * x = 1" using Npos by (simp add: x_def)
  have "real N * rnd x - 1 = real N * (rnd x - x)" using Nx by (simp add: right_diff_distrib)
  then have "\<bar>real N * rnd x - 1\<bar> = \<bar>real N\<bar> * \<bar>rnd x - x\<bar>" by (simp only: abs_mult)
  also have "\<dots> = real N * \<bar>rnd x - x\<bar>" by simp
  also have "\<dots> \<le> real N * (x / 2 ^ 53)" using err Npos by (intro mult_left_mono) simp_all
  also have "\<dots> = 1 / 2 ^ 53" using Nx by simp
  finally have "\<bar>real N * rnd x - 1\<bar> \<le> 1 / 2 ^ 53" .
  moreover have "ddiv (Fin 1) (Fin (real N)) = Fin (rnd x)"
    using Npos f by (simp add: x_def)
  ultimately show ?thesis by blast
qed

lemma acc_unit:
  assumes "xs \<noteq> []" "length xs \<le> 2 ^ 26" "\<forall>x \<in> set xs. T x = Fin 1"
  shows "\<exists>t. fold (\<lambda>x acc. dadd acc (ddiv (T x) (Fin (real (length xs))))) xs (Fin 0) = Fin t \<and>
           \<bar>t - 1\<bar> \<le> 1 / 10 ^ 7"
proof -
  define N where "N = length xs"
  have Npos: "0 < N" using assms(1) by (simp add: N_def)
  have N26: "N \<le> 2 ^ 26" using assms(2) by (simp add: N_def)
  obtain r where r: "ddiv (Fin 1) (Fin (real N)) = Fin r" "\<bar>real N * r - 1\<bar> \<le> 1 / 2 ^ 53"
    using unit_term[OF Npos N26] by blast
  have T: "\<forall>x \<in> set xs. ddiv (T x) (Fin (real N)) = Fin r" using assms(3) r(1) by simp
  have t0: "(0::real) \<le> 0" "\<bar>0 - real 0 * r\<bar> \<le> 2 * real 0 / 2 ^ 53" by simp_all
  have j: "0 + length xs \<le> N" by (simp add: N_def)
  obtain t where t: "fold (\<lambda>x acc. dadd acc (ddiv (T x) (Fin (real N)))) xs (Fin 0) = Fin t"
    "\<bar>t - real (0 + length xs) * r\<bar> \<le> 2 * real (0 + length xs) / 2 ^ 53"
    using acc_const[OF N26 r(2) t0 j T] by blast
  have rN: "real N \<le> 2 ^ 26"
  proof -
    have "real N \<le> real (2 ^ 26)" using N26 by (simp only: of_nat_le_iff)
    then show ?thesis by simp
  qed
  define M where "M = real N * r"
  have a: "\<bar>t - M\<bar> \<le> 2 * real N / 2 ^ 53" using t(2) by (simp add: N_def M_def)
  have b: "2 * real N / 2 ^ 53 \<le> 1 / 2 ^ 26" using rN by simp
  have c: "\<bar>M - 1\<bar> \<le> 1 / 2 ^ 53" using r(2) by (simp add: M_def)
  have d: "(1::real) / 2 ^ 26 + 1 / 2 ^ 53 \<le> 1 / 10 ^ 7" by simp
  have "\<bar>t - 1\<bar> \<le> 1 / 10 ^ 7" using a b c d by linarith
  then show ?thesis using t(1) unfolding N_def by blast
qed

lemma even_split_mean64:
  fixes a :: int
  assumes "v \<noteq> []" "length v \<le> 2 ^ 26" "\<bar>a\<bar> \<le> 2 ^ 26"
    and "set v \<subseteq> {Fin (of_int a), Fin (of_int a + 2)}"
    and "count_list v (Fin (of_int a)) = count_list v (Fin (of_int a + 2))"
  shows "ddiv (fold (\<lambda>x acc. dadd acc x) v (Fin 0)) (Fin (real (length v))) = Fin (of_int a + 1)"
proof -
  define h where "h = count_list v (Fin (of_int a))"
  have len: "length v = h + h" using even_counts64[OF assms(4)] assms(5) by (simp add: h_def)
  have "int (length v) \<le> 2 ^ 26"
  proof -
    have "int (length v) \<le> int (2 ^ 26)" using assms(2) by (simp only: of_nat_le_iff)
    then show ?thesis by simp
  qed
  moreover have "\<bar>a\<bar> + 2 \<le> 2 ^ 26 + 2" using assms(3) by simp
  ultimately have "(\<bar>a\<bar> + 2) * int (length v) \<le> (2 ^ 26 + 2) * 2 ^ 26"
    by (intro mult_mono) simp_all
  also have "\<dots> \<le> (2::int) ^ 53" by simp
  finally have b: "\<bar>0::int\<bar> + (\<bar>a\<bar> + 2) * int (length v) \<le> 2 ^ 53" by simp
  have e1: "fold (\<lambda>x acc. dadd acc x) v (Fin (of_int 0)) =
         Fin (of_int (0 + a * int h + (a + 2) * int h))"
    using even_sum64[OF assms(4) b] assms(5) by (simp only: h_def)
  have e2: "0 + a * int h + (a + 2) * int h = (a + 1) * int (length v)"
    by (simp add: len algebra_simps)
  have s: "fold (\<lambda>x acc. dadd acc x) v (Fin 0) = Fin (of_int ((a + 1) * int (length v)))"
    using e1 unfolding e2 by simp
  have n0: "real (length v) \<noteq> 0" using assms(1) by simp
  have q: "real_of_int ((a + 1) * int (length v)) / real (length v) = of_int (a + 1)"
    using n0 by simp
  have "\<bar>a + 1\<bar> \<le> 2 ^ 53" using assms(3) by simp
  then have "round64 (of_int (a + 1)) = Fin (of_int (a + 1))" by (rule round64_int)
  then show ?thesis unfolding s using n0 q by simp
qed

lemma even_split_dev64:
  fixes a :: int
  assumes "x = Fin (of_int a) \<or> x = Fin (of_int a + 2)"
  shows "dmul (Fin 1) (dpow2 (dsub x (Fin (of_int a + 1)))) = Fin 1"
    and "dabs (dsub x (Fin (of_int a + 1))) = Fin 1"
  using assms by (auto simp: dsub_def dpow2_def)

lemma is_double_int: "\<bar>k\<bar> \<le> 2 ^ 53 \<Longrightarrow> is_double (Fin (of_int k))"
  by (simp add: is_double_def round64_int)

lemma even_split_double:
  fixes a :: int
  assumes "\<bar>a\<bar> \<le> 2 ^ 26" "set v \<subseteq> {Fin (of_int a), Fin (of_int a + 2)}"
  shows "\<forall>p \<in> set v. is_double p"
proof
  fix p assume "p \<in> set v"
  then have "p = Fin (of_int a) \<or> p = Fin (of_int (a + 2))" using assms(2) by auto
  moreover have "\<bar>a\<bar> \<le> 2 ^ 53" "\<bar>a + 2\<bar> \<le> 2 ^ 53" using assms(1) by simp_all
  ultimately show "is_double p" using is_double_int by blast
qed

section \<open>Sorted feature values and candidate split points\<close>

text \<open>
  Sorting the sample indices by feature value keeps the number of samples on each side
  of a threshold; in the sorted order a candidate split point is a threshold (the feature
  value just before it) with exactly the first \<open>i\<close> samples on its left.
\<close>

lemma filter_insort_key_length:
  "length (filter Q (insort_key f x xs)) = length (filter Q (x # xs))"
  by (induction xs) auto

lemma filter_sort_key_length:
  "length (filter Q (sort_key f xs)) = length (filter Q xs)"
proof (induction xs)
  case Nil
  then show ?case by simp
next
  case (Cons x xs)
  have "length (filter Q (sort_key f (x # xs))) = length (filter Q (x # sort_key f xs))"
    by (simp add: filter_insort_key_length)
  then show ?case using Cons by simp
qed

lemma sorted_values_count:
  "length (filter P (map (\<lambda>i. featureValues ! i)
       (sort_key (\<lambda>i. featureValues ! i) [0..<length featureValues])))
     = length (filter P featureValues)"
proof -
  let ?f = "\<lambda>i. featureValues ! i"
  let ?idx = "[0..<length featureValues]"
  have "length (filter P (map ?f (sort_key ?f ?idx))) = length (filter (P \<circ> ?f) (sort_key ?f ?idx))"
    by (simp add: filter_map)
  also have "\<dots> = length (filter (P \<circ> ?f) ?idx)"
    by (rule filter_sort_key_length)
  also have "\<dots> = length (filter P (map ?f ?idx))"
    by (simp add: filter_map)
  also have "map ?f ?idx = featureValues" by (rule map_nth)
  finally show ?thesis .
qed

lemma candidate_sides:
  fixes vs :: "real list"
  assumes "sorted vs" "0 < i" "i < length vs" "vs ! (i - 1) \<noteq> vs ! i"
  shows "filter (\<lambda>v. v \<le> vs ! (i - 1)) vs = take i vs"
    and "filter (\<lambda>v. vs ! (i - 1) < v) vs = drop i vs"
proof -
  let ?t = "vs ! (i - 1)"
  have lt: "?t < vs ! i"
    using sorted_nth_mono[OF assms(1), of "i - 1" i] assms(2,3,4) by simp
  have lo: "v \<le> ?t" if mem: "v \<in> set (take i vs)" for v
  proof -
    obtain j where "j < length (take i vs)" "take i vs ! j = v"
      using mem unfolding in_set_conv_nth by blast
    then have j: "j < i" "v = vs ! j" by simp_all
    show ?thesis using sorted_nth_mono[OF assms(1), of j "i - 1"] j assms(2,3) by simp
  qed
  have hi: "?t < v" if mem: "v \<in> set (drop i vs)" for v
  proof -
    obtain j where "j < length (drop i vs)" "drop i vs ! j = v"
      using mem unfolding in_set_conv_nth by blast
    then have j: "j < length vs - i" "v = vs ! (i + j)" using assms(3) by simp_all
    have "vs ! i \<le> vs ! (i + j)"
      using sorted_nth_mono[OF assms(1), of i "i + j"] j(1) by simp
    then show ?thesis using lt j(2) by simp
  qed
  have l1: "filter (\<lambda>v. v \<le> ?t) (take i vs) = take i vs"
    using lo by (intro filter_True) blast
  have l2: "filter (\<lambda>v. v \<le> ?t) (drop i vs) = []"
    using hi by (auto simp: filter_empty_conv not_le)
  have r1: "filter (\<lambda>v. ?t < v) (take i vs) = []"
    using lo by (auto simp: filter_empty_conv not_less)
  have r2: "filter (\<lambda>v. ?t < v) (drop i vs) = drop i vs"
    using hi by (intro filter_True) blast
  have "filter (\<lambda>v. v \<le> ?t) vs = filter (\<lambda>v. v \<le> ?t) (take i vs @ drop i vs)"
    by simp
  also have "\<dots> = take i vs" unfolding filter_append l1 l2 by simp
  finally show "filter (\<lambda>v. v \<le> ?t) vs = take i vs" .
  have "filter (\<lambda>v. ?t < v) vs = filter (\<lambda>v. ?t < v) (take i vs @ drop i vs)"
    by simp
  also have "\<dots> = drop i vs" unfolding filter_append r1 r2 by simp
  finally show "filter (\<lambda>v. ?t < v) vs = drop i vs" .
qed

lemma no_candidates:
  fixes vs :: "real list"
  assumes "sorted vs"
    and "\<forall>t. \<not> (minLeafSize \<le> length (filter (\<lambda>v. v \<le> t) vs) \<and>
                 minLeafSize \<le> length (filter (\<lambda>v. t < v) vs))"
  shows "split_candidates vs minLeafSize = []"
proof (rule ccontr)
  assume "split_candidates vs minLeafSize \<noteq> []"
  then obtain i where "i \<in> set (split_candidates vs minLeafSize)"
    by (cases "split_candidates vs minLeafSize") auto
  then have i: "0 < i" "i < length vs" "minLeafSize \<le> i" "minLeafSize \<le> length vs - i"
      "vs ! (i - 1) \<noteq> vs ! i"
    by (auto simp: split_candidates_def)
  have "length (filter (\<lambda>v. v \<le> vs ! (i - 1)) vs) = i"
    "length (filter (\<lambda>v. vs ! (i - 1) < v) vs) = length vs - i"
    using candidate_sides[OF assms(1) i(1,2,5)] i(2) by simp_all
  then show False using assms(2) i(3,4) by metis
qed

lemma few_samples_no_partition:
  fixes featureValues :: "real list"
  assumes "length featureValues < 2 * minLeafSize"
  shows "\<not> (minLeafSize \<le> length (filter (\<lambda>v. v \<le> t) featureValues) \<and>
            minLeafSize \<le> length (filter (\<lambda>v. t < v) featureValues))"
proof -
  have "length (filter (\<lambda>v. v \<le> t) featureValues) + length (filter (\<lambda>v. \<not> v \<le> t) featureValues)
          = length featureValues"
    by (rule sum_length_filter_compl)
  moreover have "(\<lambda>v. \<not> v \<le> t) = (\<lambda>v. t < v)" by (rule ext) (simp add: not_le)
  ultimately show ?thesis using assms by auto
qed

section \<open>Properties of the gain functions\<close>

subsection \<open>Empty response set\<close>

text \<open>
  C5. For an empty response vector the full-range \<^verbatim>\<open>Evaluate\<close> of \<^verbatim>\<open>MSEGain\<close> and of
  \<^verbatim>\<open>MADGain\<close> returns the gain 0, with \<^verbatim>\<open>UseWeights\<close> true or false, whatever the weights
  argument holds and however long it is.
\<close>

theorem Evaluate_empty:
  "MSEGain_Evaluate UseWeights [] weights = Some 0 \<and>
   MADGain_Evaluate UseWeights [] weights = Some 0"
  by (simp add: MSEGain_Evaluate_def MADGain_Evaluate_def)

subsection \<open>The unweighted variant never reads the weights\<close>

text \<open>
  C10. With \<^verbatim>\<open>UseWeights = false\<close> the result of \<^verbatim>\<open>MSEGain::Evaluate\<close> and of
  \<^verbatim>\<open>MADGain::Evaluate\<close>, on a range and on the whole vector, is the same for any two
  weight vectors, of any contents and lengths.
\<close>

theorem Evaluate_unweighted_ignores_weights:
  "MSEGain_Evaluate_range False predictors weights1 start endIdx =
     MSEGain_Evaluate_range False predictors weights2 start endIdx \<and>
   MADGain_Evaluate_range False predictors weights1 start endIdx =
     MADGain_Evaluate_range False predictors weights2 start endIdx \<and>
   MSEGain_Evaluate False predictors weights1 = MSEGain_Evaluate False predictors weights2 \<and>
   MADGain_Evaluate False predictors weights1 = MADGain_Evaluate False predictors weights2"
  by (simp add: MSEGain_Evaluate_def MADGain_Evaluate_def
      MSEGain_Evaluate_range_def MADGain_Evaluate_range_def)
subsection \<open>Zero weight sum\<close>




subsection \<open>Equal weights\<close>

text \<open>
  C7, as amended. For a non-empty vector of at most \<open>2 ^ 53\<close> responses and a weight
  vector, at least as long, whose entries all equal 1, the weighted full-range
  \<^verbatim>\<open>Evaluate\<close> returns the same binary64 value as the unweighted full-range \<^verbatim>\<open>Evaluate\<close>
  (called with any weights argument), for \<^verbatim>\<open>MSEGain\<close> and for \<^verbatim>\<open>MADGain\<close>.
\<close>

theorem Evaluate64_unit_weights:
  assumes "predictors \<noteq> []" and "length predictors \<le> 2 ^ 53"
    and "length predictors \<le> n" and "\<forall>p \<in> set predictors. is_double p"
  shows "(\<exists>g. MSEGain_Evaluate64 True predictors (replicate n (Fin 1)) = Some g \<and>
              MSEGain_Evaluate64 False predictors weights = Some g) \<and>
         (\<exists>g. MADGain_Evaluate64 True predictors (replicate n (Fin 1)) = Some g \<and>
              MADGain_Evaluate64 False predictors weights = Some g)"
  using unit_weights_gain[OF assms, of weights] by simp

text \<open>
  Three responses with the weight 1.
\<close>

theorem Evaluate64_unit_weights_witness:
  "(\<exists>g. MSEGain_Evaluate64 True [Fin 1, Fin 2, Fin 4] [Fin 1, Fin 1, Fin 1] = Some g \<and>
        MSEGain_Evaluate64 False [Fin 1, Fin 2, Fin 4] [] = Some g) \<and>
   (\<exists>g. MADGain_Evaluate64 True [Fin 1, Fin 2, Fin 4] [Fin 1, Fin 1, Fin 1] = Some g \<and>
        MADGain_Evaluate64 False [Fin 1, Fin 2, Fin 4] [] = Some g)"
proof -
  have d: "\<forall>p \<in> set [Fin 1, Fin 2, Fin 4]. is_double p"
    by (simp add: is_double_def round64_numeral)
  have l: "length [Fin 1, Fin 2, Fin 4] \<le> 2 ^ 53" by simp
  show ?thesis
    using Evaluate64_unit_weights[of "[Fin 1, Fin 2, Fin 4]" "length [Fin 1, Fin 2, Fin (4::real)]" "[]",
        OF _ l _ d]
    by simp
qed

text \<open>
  C7, as stated, fails for a common weight other than 1. The single response
  \<open>2 ^ 53 - 2\<close> with the weight 3: the product \<open>3 * (2 ^ 53 - 2)\<close> rounds down by 2, the
  weighted mean becomes \<open>2 ^ 53 - 3\<close>, one less than the response, and the weighted gain
  is -1 under both metrics, where the unweighted gain is 0.
\<close>

theorem Evaluate64_constant_weights_counterexample:
  "MSEGain_Evaluate64 True [Fin 9007199254740990] [Fin 3] = Some (Fin (- 1)) \<and>
   MSEGain_Evaluate64 False [Fin 9007199254740990] [Fin 3] = Some (Fin 0) \<and>
   MADGain_Evaluate64 True [Fin 9007199254740990] [Fin 3] = Some (Fin (- 1)) \<and>
   MADGain_Evaluate64 False [Fin 9007199254740990] [Fin 3] = Some (Fin 0)"
proof -
  have r1: "round64 27021597764222970 = Fin 27021597764222968"
    by (rule round64_at[of 54]) (simp_all add: emin_def emax_def round_even_def)
  have r2: "round64 27021597764222968 = Fin 27021597764222968"
    by (rule round64_at[of 54]) (simp_all add: emin_def emax_def round_even_def)
  have r3: "round64 (27021597764222968 / 3) = Fin 9007199254740989"
    by (rule round64_at[of 52]) (simp_all add: emin_def emax_def round_even_def)
  have c: "range_count 0 0 = 1" by (simp add: range_count_def)
  show ?thesis
    unfolding MSEGain_Evaluate64_def MADGain_Evaluate64_def
      MSEGain_Evaluate_range64_def MADGain_Evaluate_range64_def
    by (simp add: for_loop.simps elem64_def dsub_def dpow2_def double_of_size_def c
        round64_numeral round64_neg_numeral r1 r2 r3)
qed

subsection \<open>Samples evenly split between two values\<close>

text \<open>
  C3, as amended. Let \<open>a\<close> be an integer with \<open>|a| \<le> 2 ^ 26\<close>, and let at most \<open>2 ^ 26\<close>
  responses be given, half of them equal to \<open>a\<close> and the other half equal to \<open>a + 2\<close>, in
  any order. Then \<^verbatim>\<open>MSEGain::Evaluate\<close> returns a finite value within \<open>1e-7\<close> of -1, the
  same value unweighted and weighted with all weights 1. (The sum of the responses and
  their mean \<open>a + 1\<close> are exact, every deviation is 1 or -1, and the only rounding is in
  the quotient \<open>1 / n\<close> and in the \<open>n\<close> additions of it.) The tests take \<open>a\<close> from 2 to 28
  and up to 2800 responses.
\<close>

theorem MSEGain64_even_split:
  fixes a :: int
  assumes "predictors \<noteq> []" "length predictors \<le> 2 ^ 26" "\<bar>a\<bar> \<le> 2 ^ 26"
    and "set predictors \<subseteq> {Fin (of_int a), Fin (of_int a + 2)}"
    and "count_list predictors (Fin (of_int a)) = count_list predictors (Fin (of_int a + 2))"
  shows "\<exists>g. MSEGain_Evaluate64 False predictors weights = Some (Fin g) \<and>
             MSEGain_Evaluate64 True predictors (replicate (length predictors) (Fin 1))
               = Some (Fin g) \<and>
             \<bar>g - (- 1)\<bar> \<le> 1 / 10 ^ 7"
proof -
  have "(2::nat) ^ 26 \<le> 2 ^ 53" by simp
  then have l53: "length predictors \<le> 2 ^ 53" using assms(2) by (rule le_trans[rotated])
  have T: "\<forall>x \<in> set predictors. dmul (Fin 1) (dpow2 (dsub x (Fin (of_int a + 1)))) = Fin 1"
    using assms(4) even_split_dev64(1)[of _ a] by blast
  obtain t where t:
    "fold (\<lambda>x acc. dadd acc (ddiv (dmul (Fin 1) (dpow2 (dsub x (Fin (of_int a + 1)))))
        (Fin (real (length predictors))))) predictors (Fin 0) = Fin t"
    "\<bar>t - 1\<bar> \<le> 1 / 10 ^ 7"
    using acc_unit[OF assms(1,2) T] by blast
  have u: "MSEGain_Evaluate64 False predictors w = Some (Fin (- t))" for w
    unfolding MSE64_full_unweighted[OF assms(1) l53] even_split_mean64[OF assms] t(1) by simp
  have w: "MSEGain_Evaluate64 True predictors (replicate (length predictors) (Fin 1))
          = MSEGain_Evaluate64 False predictors weights"
    by (rule unit_weights_gain(1)[OF assms(1) l53 le_refl even_split_double[OF assms(3,4)]])
  have e: "\<bar>- t - (- 1)\<bar> \<le> 1 / 10 ^ 7" using t(2) by linarith
  show ?thesis
  proof (intro exI conjI)
    show "MSEGain_Evaluate64 False predictors weights = Some (Fin (- t))" by (rule u)
    show "MSEGain_Evaluate64 True predictors (replicate (length predictors) (Fin 1))
            = Some (Fin (- t))" by (simp only: w u)
    show "\<bar>- t - (- 1)\<bar> \<le> 1 / 10 ^ 7" by (rule e)
  qed
qed

text \<open>
  Four samples, alternating between 4 and 6 as in the test MSEGainEvenSplit.
\<close>

theorem MSEGain64_even_split_witness:
  "\<exists>g. MSEGain_Evaluate64 False [Fin 4, Fin 6, Fin 4, Fin 6] [Fin 1, Fin 1, Fin 1, Fin 1]
          = Some (Fin g) \<and>
       MSEGain_Evaluate64 True [Fin 4, Fin 6, Fin 4, Fin 6] [Fin 1, Fin 1, Fin 1, Fin 1]
          = Some (Fin g) \<and>
       \<bar>g - (- 1)\<bar> \<le> 1 / 10 ^ 7"
  using MSEGain64_even_split[of "[Fin 4, Fin 6, Fin 4, Fin 6]" 4 "[Fin 1, Fin 1, Fin 1, Fin 1]"]
  by simp

text \<open>
  C3, as stated for every \<open>a\<close>, fails: for the two responses \<open>1e16\<close> and \<open>1e16 + 2\<close> the sum
  \<open>2e16 + 2\<close> rounds to \<open>2e16\<close>, the mean is \<open>1e16\<close> instead of \<open>1e16 + 1\<close>, the deviations
  are 0 and 2, and the gain is -2, unweighted and with the weights 1.
\<close>

theorem MSEGain64_even_split_counterexample:
  "MSEGain_Evaluate64 False [Fin 10000000000000000, Fin 10000000000000002] [Fin 1, Fin 1]
     = Some (Fin (- 2)) \<and>
   MSEGain_Evaluate64 True [Fin 10000000000000000, Fin 10000000000000002] [Fin 1, Fin 1]
     = Some (Fin (- 2)) \<and>
   \<not> \<bar>(- 2 :: real) - (- 1)\<bar> \<le> 1 / 10 ^ 7"
proof -
  have r1: "round64 10000000000000000 = Fin 10000000000000000"
    by (rule round64_at[of 53]) (simp_all add: emin_def emax_def round_even_def)
  have r2: "round64 10000000000000002 = Fin 10000000000000002"
    by (rule round64_at[of 53]) (simp_all add: emin_def emax_def round_even_def)
  have r3: "round64 20000000000000002 = Fin 20000000000000000"
    by (rule round64_at[of 54]) (simp_all add: emin_def emax_def round_even_def)
  have c: "range_count 0 (Suc 0) = 2" by (simp add: range_count_def)
  show ?thesis
    unfolding MSEGain_Evaluate64_def MSEGain_Evaluate_range64_def
    by (simp add: for_loop.simps elem64_def dsub_def dpow2_def double_of_size_def c
        round64_numeral round64_neg_numeral r1 r2 r3)
qed

text \<open>
  C1, as amended. On the same samples (\<open>a\<close> an integer with \<open>|a| \<le> 2 ^ 26\<close>, at most
  \<open>2 ^ 26\<close> responses, half equal to \<open>a\<close> and half equal to \<open>a + 2\<close>)
  \<^verbatim>\<open>MADGain::Evaluate\<close> returns a finite value within \<open>1e-7\<close> of -1: every response lies
  at distance 1 from the mean \<open>a + 1\<close>. The value is the same unweighted and weighted
  with all weights 1, and it is the value the test MADGainEvenSplit requires.
\<close>

theorem MADGain64_even_split:
  fixes a :: int
  assumes "predictors \<noteq> []" "length predictors \<le> 2 ^ 26" "\<bar>a\<bar> \<le> 2 ^ 26"
    and "set predictors \<subseteq> {Fin (of_int a), Fin (of_int a + 2)}"
    and "count_list predictors (Fin (of_int a)) = count_list predictors (Fin (of_int a + 2))"
  shows "\<exists>g. MADGain_Evaluate64 False predictors weights = Some (Fin g) \<and>
             MADGain_Evaluate64 True predictors (replicate (length predictors) (Fin 1))
               = Some (Fin g) \<and>
             \<bar>g - (- 1)\<bar> \<le> 1 / 10 ^ 7"
proof -
  have "(2::nat) ^ 26 \<le> 2 ^ 53" by simp
  then have l53: "length predictors \<le> 2 ^ 53" using assms(2) by (rule le_trans[rotated])
  have T: "\<forall>x \<in> set predictors. dabs (dsub x (Fin (of_int a + 1))) = Fin 1"
    using assms(4) even_split_dev64(2)[of _ a] by blast
  obtain t where t:
    "fold (\<lambda>x acc. dadd acc (ddiv (dabs (dsub x (Fin (of_int a + 1))))
        (Fin (real (length predictors))))) predictors (Fin 0) = Fin t"
    "\<bar>t - 1\<bar> \<le> 1 / 10 ^ 7"
    using acc_unit[OF assms(1,2) T] by blast
  have u: "MADGain_Evaluate64 False predictors w = Some (Fin (- t))" for w
    unfolding MAD64_full_unweighted[OF assms(1) l53] even_split_mean64[OF assms] t(1) by simp
  have w: "MADGain_Evaluate64 True predictors (replicate (length predictors) (Fin 1))
          = MADGain_Evaluate64 False predictors weights"
    by (rule unit_weights_gain(2)[OF assms(1) l53 le_refl even_split_double[OF assms(3,4)]])
  have e: "\<bar>- t - (- 1)\<bar> \<le> 1 / 10 ^ 7" using t(2) by linarith
  show ?thesis
  proof (intro exI conjI)
    show "MADGain_Evaluate64 False predictors weights = Some (Fin (- t))" by (rule u)
    show "MADGain_Evaluate64 True predictors (replicate (length predictors) (Fin 1))
            = Some (Fin (- t))" by (simp only: w u)
    show "\<bar>- t - (- 1)\<bar> \<le> 1 / 10 ^ 7" by (rule e)
  qed
qed

text \<open>
  Four samples, alternating between 4 and 6.
\<close>

theorem MADGain64_even_split_witness:
  "\<exists>g. MADGain_Evaluate64 False [Fin 4, Fin 6, Fin 4, Fin 6] [Fin 1, Fin 1, Fin 1, Fin 1]
          = Some (Fin g) \<and>
       MADGain_Evaluate64 True [Fin 4, Fin 6, Fin 4, Fin 6] [Fin 1, Fin 1, Fin 1, Fin 1]
          = Some (Fin g) \<and>
       \<bar>g - (- 1)\<bar> \<le> 1 / 10 ^ 7"
  using MADGain64_even_split[of "[Fin 4, Fin 6, Fin 4, Fin 6]" 4 "[Fin 1, Fin 1, Fin 1, Fin 1]"]
  by simp

text \<open>
  C1, as stated, fails: on the two responses 0 and 2 the gain is -1, unweighted and with
  the weights 1, and -1 is not within \<open>1e-7\<close> of -0.5.
\<close>

theorem MADGain64_even_split_counterexample:
  "MADGain_Evaluate64 False [Fin 0, Fin 2] [Fin 1, Fin 1] = Some (Fin (- 1)) \<and>
   MADGain_Evaluate64 True [Fin 0, Fin 2] [Fin 1, Fin 1] = Some (Fin (- 1)) \<and>
   \<not> \<bar>(- 1 :: real) - (- 1 / 2)\<bar> \<le> 1 / 10 ^ 7"
proof -
  have h: "round64 (1 / 2) = Fin (1 / 2)"
    by (rule round64_at[of "- 1"]) (simp_all add: emin_def emax_def round_even_def power_int_minus)
  have c: "range_count 0 (Suc 0) = 2" by (simp add: range_count_def)
  show ?thesis
    unfolding MADGain_Evaluate64_def MADGain_Evaluate_range64_def
    by (simp add: for_loop.simps elem64_def dsub_def dpow2_def double_of_size_def c
        round64_numeral round64_neg_numeral h)
qed

subsection \<open>The weighted example of the tests\<close>

text \<open>
  C2. Ten responses, five equal to 0 with weight 0.3 and five equal to 1 with weight 0.7:
  the weighted \<^verbatim>\<open>MSEGain::Evaluate\<close> returns -0.21 and the weighted \<^verbatim>\<open>MADGain::Evaluate\<close>
  returns -0.42, exactly.
\<close>

theorem Evaluate_weighted_example:
  "MSEGain_Evaluate True [0, 0, 0, 0, 0, 1, 1, 1, 1, 1]
      [3 / 10, 3 / 10, 3 / 10, 3 / 10, 3 / 10, 7 / 10, 7 / 10, 7 / 10, 7 / 10, 7 / 10]
     = Some (- (21 / 100)) \<and>
   MADGain_Evaluate True [0, 0, 0, 0, 0, 1, 1, 1, 1, 1]
      [3 / 10, 3 / 10, 3 / 10, 3 / 10, 3 / 10, 7 / 10, 7 / 10, 7 / 10, 7 / 10, 7 / 10]
     = Some (- (42 / 100))"
proof -
  let ?p = "[0, 0, 0, 0, 0, 1, 1, 1, 1, 1] :: real list"
  let ?w = "[3 / 10, 3 / 10, 3 / 10, 3 / 10, 3 / 10, 7 / 10, 7 / 10, 7 / 10, 7 / 10, 7 / 10] :: real list"
  have b: "0 \<le> length ?p - 1 \<longrightarrow> length ?p - 1 < length ?p \<and> length ?p - 1 < length ?w"
    by simp
  have mse: "MSEGain_Evaluate True ?p ?w = Some (- (21 / 100))"
    unfolding MSEGain_Evaluate_def MSE_weighted_sum[OF b]
    by (simp add: sum.atLeast_Suc_atMost power2_eq_square)
  have mad: "MADGain_Evaluate True ?p ?w = Some (- (42 / 100))"
    unfolding MADGain_Evaluate_def MAD_weighted_sum[OF b]
    by (simp add: sum.atLeast_Suc_atMost)
  show ?thesis using mse mad by simp
qed

section \<open>Properties of the split finders\<close>

text \<open>
  C8. A threshold \<open>t\<close> sends the samples with feature value at most \<open>t\<close> to the left
  child and the others to the right child. When no threshold gives both children at least
  \<open>minLeafSize\<close> samples (the vectors having the same length), and in particular whenever
  there are fewer than \<open>2 * minLeafSize\<close> samples, \<^verbatim>\<open>SplitIfBetter\<close> of the numeric finder
  returns \<^verbatim>\<open>DBL_MAX\<close> and leaves \<^verbatim>\<open>outSplitInfo\<close> as it was: empty when it was passed
  empty.
\<close>

theorem BestBinaryNumericSplit_no_valid_partition:
  assumes "length featureValues < 2 * minLeafSize \<or>
     (same_lengths UseWeights featureValues responses weights \<and>
      (\<forall>t. \<not> (minLeafSize \<le> length (filter (\<lambda>v. v \<le> t) featureValues) \<and>
                minLeafSize \<le> length (filter (\<lambda>v. t < v) featureValues))))"
  shows "BestBinaryNumericSplit_SplitIfBetter fit UseWeights currentBestGain featureValues
           responses weights minLeafSize minGainSplit outSplitInfo = Some (DBL_MAX, outSplitInfo) \<and>
         BestBinaryNumericSplit_SplitIfBetter fit UseWeights currentBestGain featureValues
           responses weights minLeafSize minGainSplit [] = Some (DBL_MAX, [])"
proof (cases "length featureValues < 2 * minLeafSize")
  case True
  then show ?thesis by (simp add: BestBinaryNumericSplit_SplitIfBetter_def)
next
  case False
  let ?order = "sort_key (\<lambda>i. featureValues ! i) [0..<length featureValues]"
  let ?vs = "map (\<lambda>i. featureValues ! i) ?order"
  have wf: "same_lengths UseWeights featureValues responses weights"
    and none: "\<forall>t. \<not> (minLeafSize \<le> length (filter (\<lambda>v. v \<le> t) featureValues) \<and>
                minLeafSize \<le> length (filter (\<lambda>v. t < v) featureValues))"
    using assms False by auto
  have "sorted ?vs" by (rule sorted_sort_key)
  moreover have "\<forall>t. \<not> (minLeafSize \<le> length (filter (\<lambda>v. v \<le> t) ?vs) \<and>
                minLeafSize \<le> length (filter (\<lambda>v. t < v) ?vs))"
    using none unfolding sorted_values_count .
  ultimately have "split_candidates ?vs minLeafSize = []" by (rule no_candidates)
  then show ?thesis
    using False wf by (simp add: BestBinaryNumericSplit_SplitIfBetter_def Let_def)
qed

text \<open>
  The input of the test BestBinaryNumericSplitMinSamplesTest (11 samples,
  \<open>minLeafSize = 8\<close>), and four samples with the feature values 1, 1, 1, 2 and
  \<open>minLeafSize = 2\<close>, where the only boundary leaves one sample on the right.
\<close>

theorem BestBinaryNumericSplit_no_valid_partition_witness:
  "BestBinaryNumericSplit_SplitIfBetter MSEGain_Evaluate False (- (30 / 121))
     [0, 1 / 10, 2 / 10, 3 / 10, 4 / 10, 5 / 10, 6 / 10, 7 / 10, 8 / 10, 9 / 10, 1]
     [0, 0, 0, 0, 0, 1, 1, 1, 1, 1, 1] [1, 1, 1, 1, 1, 1, 1, 1, 1, 1, 1] 8 (1 / 10 ^ 7) []
     = Some (DBL_MAX, []) \<and>
   BestBinaryNumericSplit_SplitIfBetter MADGain_Evaluate True (- 1)
     [1, 1, 1, 2] [0, 3, 0, 3] [1, 1, 1, 1] 2 0 [] = Some (DBL_MAX, [])"
proof -
  have none: "\<forall>t. \<not> (2 \<le> length (filter (\<lambda>v. v \<le> t) [1, 1, 1, 2 :: real]) \<and>
                     2 \<le> length (filter (\<lambda>v. t < v) [1, 1, 1, 2 :: real]))"
    by auto
  have wf: "same_lengths True [1, 1, 1, 2] [0, 3, 0, 3] [1, 1, 1, 1]"
    by (simp add: same_lengths_def)
  show ?thesis
    using BestBinaryNumericSplit_no_valid_partition[of
        "[0, 1 / 10, 2 / 10, 3 / 10, 4 / 10, 5 / 10, 6 / 10, 7 / 10, 8 / 10, 9 / 10, 1]" 8
        False "[0, 0, 0, 0, 0, 1, 1, 1, 1, 1, 1]" "[1, 1, 1, 1, 1, 1, 1, 1, 1, 1, 1]"
        MSEGain_Evaluate "- (30 / 121)" "1 / 10 ^ 7" "[]"]
      BestBinaryNumericSplit_no_valid_partition[of "[1, 1, 1, 2]" 2 True "[0, 3, 0, 3]"
        "[1, 1, 1, 1]" MADGain_Evaluate "- 1" 0 "[]"] none wf
    by simp
qed

text \<open>
  C9. When every rejection test of the categorical \<^verbatim>\<open>SplitIfBetter\<close> passes, it returns
  the combined gain and writes the single element \<open>numCategories\<close> into \<^verbatim>\<open>outSplitInfo\<close>.
  Conversely, whenever it returns a gain other than the sentinel, \<^verbatim>\<open>outSplitInfo\<close> holds
  exactly that one element and the gain returned is the combined gain, which exceeds
  \<open>currentBestGain + minGainSplit\<close>.
\<close>

theorem AllCategoricalSplit_accept:
  "(same_lengths UseWeights featureValues responses weights \<and>
    (\<forall>v \<in> set featureValues. v \<in> real ` {0..<numCategories}) \<and>
    minLeafSize * numCategories \<le> length featureValues \<and>
    (\<forall>c \<in> {0..<numCategories}. minLeafSize \<le> length (bucket featureValues responses c)) \<and>
    combined_gain fit UseWeights
      (category_parts featureValues numCategories responses weights) = Some g \<and>
    currentBestGain + minGainSplit < g
    \<longrightarrow>
    AllCategoricalSplit_SplitIfBetter fit UseWeights currentBestGain featureValues numCategories
      responses weights minLeafSize minGainSplit outSplitInfo = Some (g, [real numCategories])) \<and>
   (\<forall>r out'.
      AllCategoricalSplit_SplitIfBetter fit UseWeights currentBestGain featureValues numCategories
        responses weights minLeafSize minGainSplit outSplitInfo = Some (r, out') \<and> r \<noteq> DBL_MAX
      \<longrightarrow>
      out' = [real numCategories] \<and> length out' = 1 \<and>
      combined_gain fit UseWeights
        (category_parts featureValues numCategories responses weights) = Some r \<and>
      currentBestGain + minGainSplit < r)"
proof (intro conjI impI allI)
  assume a: "same_lengths UseWeights featureValues responses weights \<and>
    (\<forall>v \<in> set featureValues. v \<in> real ` {0..<numCategories}) \<and>
    minLeafSize * numCategories \<le> length featureValues \<and>
    (\<forall>c \<in> {0..<numCategories}. minLeafSize \<le> length (bucket featureValues responses c)) \<and>
    combined_gain fit UseWeights
      (category_parts featureValues numCategories responses weights) = Some g \<and>
    currentBestGain + minGainSplit < g"
  have 1: "\<not> length featureValues < minLeafSize * numCategories" using a by simp
  have 2: "\<not> (\<not> same_lengths UseWeights featureValues responses weights \<or>
              (\<exists>v \<in> set featureValues. v \<notin> real ` {0..<numCategories}))" using a by blast
  have 3: "\<not> (\<exists>c \<in> {0..<numCategories}. length (bucket featureValues responses c) < minLeafSize)"
    using a by (meson not_less)
  show "AllCategoricalSplit_SplitIfBetter fit UseWeights currentBestGain featureValues numCategories
      responses weights minLeafSize minGainSplit outSplitInfo = Some (g, [real numCategories])"
    unfolding AllCategoricalSplit_SplitIfBetter_def if_not_P[OF 1] if_not_P[OF 2] if_not_P[OF 3]
    using a by simp
next
  fix r out'
  assume b: "AllCategoricalSplit_SplitIfBetter fit UseWeights currentBestGain featureValues numCategories
        responses weights minLeafSize minGainSplit outSplitInfo = Some (r, out') \<and> r \<noteq> DBL_MAX"
  then have c: "combined_gain fit UseWeights
        (category_parts featureValues numCategories responses weights) = Some r \<and>
      currentBestGain + minGainSplit < r \<and> out' = [real numCategories]"
    unfolding AllCategoricalSplit_SplitIfBetter_def
    by (auto split: if_splits bind_splits)
  show "out' = [real numCategories]" using c by simp
  show "length out' = 1" using c by simp
  show "combined_gain fit UseWeights
        (category_parts featureValues numCategories responses weights) = Some r" using c by simp
  show "currentBestGain + minGainSplit < r" using c by simp
qed

text \<open>
  The input of the test AllCategoricalSplitSimpleSplitTest: four categories of three
  samples, each with one response value, \<open>minLeafSize = 3\<close>. The gain returned is 0 and
  the child count is 4, unweighted and weighted.
\<close>

lemma test_parts:
  "category_parts [0, 0, 0, 1, 1, 1, 2, 2, 2, 3, 3, 3] 4
     [10, 10, 10, 20, 20, 20, 10, 10, 10, 20, 20, 20] [1, 1, 1, 1, 1, 1, 1, 1, 1, 1, 1, 1]
   = [([10, 10, 10], [1, 1, 1]), ([20, 20, 20], [1, 1, 1]),
      ([10, 10, 10], [1, 1, 1]), ([20, 20, 20], [1, 1, 1])]"
proof -
  have u: "[0..<4] = [0, 1, 2, 3 :: nat]" by (simp add: eval_nat_numeral)
  show ?thesis unfolding category_parts_def u by (simp add: bucket_def)
qed

lemma test_combined:
  "combined_gain MSEGain_Evaluate False
     [([10, 10, 10], [1, 1, 1]), ([20, 20, 20], [1, 1, 1]),
      ([10, 10, 10], [1, 1, 1]), ([20, 20, 20], [1, 1, 1])] = Some 0"
  "combined_gain MSEGain_Evaluate True
     [([10, 10, 10], [1, 1, 1]), ([20, 20, 20], [1, 1, 1]),
      ([10, 10, 10], [1, 1, 1]), ([20, 20, 20], [1, 1, 1])] = Some 0"
proof -
  have e: "MSEGain_Evaluate False [c, c, c] w = Some 0" for c w
    using MSE_full_unweighted[of "[c, c, c]" w] by simp
  have b: "0 \<le> length [c, c, c :: real] - 1 \<longrightarrow> length [c, c, c] - 1 < length [c, c, c]
       \<and> length [c, c, c] - 1 < length [1, 1, 1 :: real]" for c
    by simp
  have f: "MSEGain_Evaluate True [c, c, c] [1, 1, 1] = Some 0" for c
    unfolding MSEGain_Evaluate_def MSE_weighted_sum[OF b]
    by (simp add: sum.atLeast_Suc_atMost)
  show "combined_gain MSEGain_Evaluate False
     [([10, 10, 10], [1, 1, 1]), ([20, 20, 20], [1, 1, 1]),
      ([10, 10, 10], [1, 1, 1]), ([20, 20, 20], [1, 1, 1])] = Some 0"
    by (simp add: combined_gain_def part_gain_def part_share_def e)
  show "combined_gain MSEGain_Evaluate True
     [([10, 10, 10], [1, 1, 1]), ([20, 20, 20], [1, 1, 1]),
      ([10, 10, 10], [1, 1, 1]), ([20, 20, 20], [1, 1, 1])] = Some 0"
    by (simp add: combined_gain_def part_gain_def part_share_def f)
qed

theorem AllCategoricalSplit_accept_witness:
  "AllCategoricalSplit_SplitIfBetter MSEGain_Evaluate False (- 25)
     [0, 0, 0, 1, 1, 1, 2, 2, 2, 3, 3, 3] 4
     [10, 10, 10, 20, 20, 20, 10, 10, 10, 20, 20, 20] [1, 1, 1, 1, 1, 1, 1, 1, 1, 1, 1, 1]
     3 (1 / 10 ^ 7) [] = Some (0, [4]) \<and>
   AllCategoricalSplit_SplitIfBetter MSEGain_Evaluate True (- 25)
     [0, 0, 0, 1, 1, 1, 2, 2, 2, 3, 3, 3] 4
     [10, 10, 10, 20, 20, 20, 10, 10, 10, 20, 20, 20] [1, 1, 1, 1, 1, 1, 1, 1, 1, 1, 1, 1]
     3 (1 / 10 ^ 7) [] = Some (0, [4])"
proof -
  let ?fv = "[0, 0, 0, 1, 1, 1, 2, 2, 2, 3, 3, 3] :: real list"
  let ?rs = "[10, 10, 10, 20, 20, 20, 10, 10, 10, 20, 20, 20] :: real list"
  let ?ws = "[1, 1, 1, 1, 1, 1, 1, 1, 1, 1, 1, 1] :: real list"
  have cats: "{0..<4::nat} = {0, 1, 2, 3}" by auto
  have wf: "same_lengths u ?fv ?rs ?ws" for u by (simp add: same_lengths_def)
  have vals: "\<forall>v \<in> set ?fv. v \<in> real ` {0..<4}" unfolding cats by simp
  have size: "3 * 4 \<le> length ?fv" by simp
  have leaves: "\<forall>c \<in> {0..<4}. 3 \<le> length (bucket ?fv ?rs c)"
    unfolding cats by (simp add: bucket_def)
  have better: "- 25 + 1 / 10 ^ 7 < (0::real)" by simp
  have F: "AllCategoricalSplit_SplitIfBetter MSEGain_Evaluate False (- 25) ?fv 4 ?rs ?ws 3
             (1 / 10 ^ 7) [] = Some (0, [real 4])"
    by (rule AllCategoricalSplit_accept[of False ?fv ?rs ?ws 4 3 MSEGain_Evaluate 0 "- 25"
          "1 / 10 ^ 7" "[]", THEN conjunct1, THEN mp])
       (intro conjI wf vals size leaves better, simp only: test_parts test_combined)
  have T: "AllCategoricalSplit_SplitIfBetter MSEGain_Evaluate True (- 25) ?fv 4 ?rs ?ws 3
             (1 / 10 ^ 7) [] = Some (0, [real 4])"
    by (rule AllCategoricalSplit_accept[of True ?fv ?rs ?ws 4 3 MSEGain_Evaluate 0 "- 25"
          "1 / 10 ^ 7" "[]", THEN conjunct1, THEN mp])
       (intro conjI wf vals size leaves better, simp only: test_parts test_combined)
  from F T show ?thesis by simp
qed

end
